theory Spec2Isabelle
  imports Main
begin

section \<open>JavaScript values\<close>

text \<open>
  The chat page (main.js) receives every Message from \<^verbatim>\<open>response.json()\<close> or
  \<^verbatim>\<open>JSON.parse(e.data)\<close>, so the values it handles are JSON values.  A number is
  kept as an integer (fractions and exponents play no part in the page's logic), a string as a
  list of characters, an object as the list of its own properties in order, each key once.
  Reading a property that an object does not have gives \<^verbatim>\<open>undefined\<close>, which is
  \<open>None\<close> of \<open>json option\<close>.
\<close>

datatype json =
    JNull
  | JBool bool
  | JNum int
  | JStr string
  | JArr "json list"
  | JObj "(string \<times> json) list"

text \<open>What a statement of the page can throw.\<close>

datatype js_error =
    TypeError      \<comment> \<open>a property of null or undefined, or a call of something that is no function\<close>
  | DOMException   \<comment> \<open>\<^verbatim>\<open>classList.add\<close> with an empty token or one that holds white space\<close>
  | MarkedError    \<comment> \<open>\<^verbatim>\<open>marked.parse\<close> called with something that is no string\<close>

text \<open>
  \<^verbatim>\<open>v.k\<close> for a value \<open>v\<close> that is not null.  None of the names the page reads
  (type, text, name, args, response, role, parts) is inherited by a string, number, boolean
  or array, so only an object can answer with a value.  Reading a property of null throws;
  every caller below tests for \<open>JNull\<close> before it reads.
\<close>

fun js_get :: "json \<Rightarrow> string \<Rightarrow> json option" where
  "js_get (JObj kvs) k = map_of kvs k"
| "js_get v k = None"

text \<open>Truthiness, as \<^verbatim>\<open>if (x)\<close>, \<^verbatim>\<open>!x\<close>, \<^verbatim>\<open>x && y\<close> and \<^verbatim>\<open>x || y\<close> test it.\<close>

fun truthy :: "json option \<Rightarrow> bool" where
  "truthy None = False"
| "truthy (Some JNull) = False"
| "truthy (Some (JBool b)) = b"
| "truthy (Some (JNum n)) = (n \<noteq> 0)"
| "truthy (Some (JStr s)) = (s \<noteq> [])"
| "truthy (Some (JArr xs)) = True"
| "truthy (Some (JObj kvs)) = True"

text \<open>
  Strict equality \<^verbatim>\<open>a === b\<close>.  Primitives are compared by value.  Arrays and objects
  are compared by identity; the page only ever compares a property of one parsed (or copied)
  value with a property of another, so two of them are never the same object.
\<close>

fun strict_eq :: "json option \<Rightarrow> json option \<Rightarrow> bool" where
  "strict_eq None None = True"
| "strict_eq (Some JNull) (Some JNull) = True"
| "strict_eq (Some (JBool a)) (Some (JBool b)) = (a = b)"
| "strict_eq (Some (JNum a)) (Some (JNum b)) = (a = b)"
| "strict_eq (Some (JStr a)) (Some (JStr b)) = (a = b)"
| "strict_eq a b = False"

subsection \<open>Conversion to a string\<close>

fun digits :: "nat \<Rightarrow> string" where
  "digits n =
     (if n < 10 then [char_of (48 + n)]
      else digits (n div 10) @ [char_of (48 + n mod 10)])"

declare digits.simps [simp del]

definition number_to_string :: "int \<Rightarrow> string" where
  "number_to_string n = (if n < 0 then CHR ''-'' # digits (nat (- n)) else digits (nat n))"

fun intercalate :: "string \<Rightarrow> string list \<Rightarrow> string" where
  "intercalate sep [] = []"
| "intercalate sep [x] = x"
| "intercalate sep (x # y # ys) = x @ sep @ intercalate sep (y # ys)"

text \<open>
  \<^verbatim>\<open>String(v)\<close> of a JSON value: an array joins its elements with commas (null as the
  empty string), an object is \<^verbatim>\<open>[object Object]\<close>.
\<close>

fun ToString :: "json \<Rightarrow> string" where
  "ToString JNull = ''null''"
| "ToString (JBool b) = (if b then ''true'' else ''false'')"
| "ToString (JNum n) = number_to_string n"
| "ToString (JStr s) = s"
| "ToString (JArr xs) = intercalate '','' (map (\<lambda>x. if x = JNull then [] else ToString x) xs)"
| "ToString (JObj kvs) = ''[object Object]''"

text \<open>
  The conversion a template literal \<^verbatim>\<open>${v}\<close>, a \<^verbatim>\<open>dataset\<close> setter and
  \<^verbatim>\<open>classList.add\<close> apply to their argument.
\<close>

definition js_String :: "json option \<Rightarrow> string" where
  "js_String v = (case v of None \<Rightarrow> ''undefined'' | Some x \<Rightarrow> ToString x)"

text \<open>\<^verbatim>\<open>xs.join('')\<close>: undefined and null elements give the empty string.\<close>

definition js_join :: "json option list \<Rightarrow> string" where
  "js_join xs =
     concat (map (\<lambda>x. case x of None \<Rightarrow> [] | Some JNull \<Rightarrow> [] | Some v \<Rightarrow> ToString v) xs)"

text \<open>
  \<^verbatim>\<open>arr.filter(p => ... p.type ...)\<close>.  Calling \<^verbatim>\<open>.filter\<close> on anything but an
  array throws (undefined has no properties; a string, number or object has no function of
  that name).  Every callback the page passes reads \<^verbatim>\<open>p.type\<close> first, which throws at
  a null element.
\<close>

definition array_filter :: "(json \<Rightarrow> bool) \<Rightarrow> json option \<Rightarrow> js_error + json list" where
  "array_filter P arr =
     (case arr of
        Some (JArr xs) \<Rightarrow> if JNull \<in> set xs then Inl TypeError else Inr (filter P xs)
      | _ \<Rightarrow> Inl TypeError)"

text \<open>\<^verbatim>\<open>xs.map(f)\<close> for an \<open>f\<close> that may throw: the first exception ends the call.\<close>

fun array_map :: "('a \<Rightarrow> js_error + 'b) \<Rightarrow> 'a list \<Rightarrow> js_error + 'b list" where
  "array_map f [] = Inr []"
| "array_map f (x # xs) =
     (case f x of
        Inl e \<Rightarrow> Inl e
      | Inr y \<Rightarrow> (case array_map f xs of Inl e \<Rightarrow> Inl e | Inr ys \<Rightarrow> Inr (y # ys)))"

section \<open>Rendering\<close>

subsection \<open>htmlEncode\<close>

text \<open>\<^verbatim>\<open>s.replace(/c/g, r)\<close> for a one-character pattern.\<close>

definition replace_all :: "char \<Rightarrow> string \<Rightarrow> string \<Rightarrow> string" where
  "replace_all c r s = concat (map (\<lambda>x. if x = c then r else [x]) s)"

text \<open>
  \<^verbatim>\<open>input.replace(/&/g, '&amp;').replace(/</g, '&lt;').replace(/>/g, '&gt;')\<close>.
  The argument is what \<^verbatim>\<open>JSON.stringify\<close> returned, which is undefined when the value
  to serialise is undefined; \<^verbatim>\<open>undefined.replace\<close> throws.
\<close>

definition htmlEncode :: "string option \<Rightarrow> js_error + string" where
  "htmlEncode input =
     (case input of
        None \<Rightarrow> Inl TypeError
      | Some s \<Rightarrow>
          Inr (replace_all CHR ''>'' ''&gt;''
                (replace_all CHR ''<'' ''&lt;''
                  (replace_all CHR ''&'' ''&amp;'' s))))"

text \<open>
  \<^verbatim>\<open>JSON.stringify(v, null, 2)\<close>.  The serialiser is the browser's; it is a parameter
  \<open>stringify\<close> of the model, total on JSON values.  Of undefined it returns undefined.
\<close>

definition JSON_stringify :: "(json \<Rightarrow> string) \<Rightarrow> json option \<Rightarrow> string option" where
  "JSON_stringify stringify v = map_option stringify v"

subsection \<open>renderPart\<close>

definition newline_indent :: "nat \<Rightarrow> string" where
  "newline_indent n = CHR 0x0A # replicate n CHR '' ''"

text \<open>The template literal of the two accordion cases, with its line breaks and indentation.\<close>

definition accordion :: "string \<Rightarrow> string \<Rightarrow> string \<Rightarrow> string" where
  \<open>accordion label name code =
     newline_indent 20 @ ''<details class="accordion">'' @
     newline_indent 24 @ ''<summary>'' @ label @ name @ ''</summary>'' @
     newline_indent 24 @ ''<pre><code>'' @ code @ ''</code></pre>'' @
     newline_indent 20 @ ''</details>'' @
     newline_indent 16\<close>

text \<open>
  \<^verbatim>\<open>renderPart(part)\<close>.  The markdown renderer \<^verbatim>\<open>marked.parse\<close> is the second
  collaborator taken as a parameter (\<open>marked\<close>, from strings to markup); called with a
  value that is no string it throws.  \<^verbatim>\<open>part.text || ''\<close> is the text when truthy and
  the empty string otherwise.  The name goes into the header through the template literal
  alone; the serialised payload goes through \<open>htmlEncode\<close>.
\<close>

definition renderPart ::
  "(string \<Rightarrow> string) \<Rightarrow> (json \<Rightarrow> string) \<Rightarrow> json option \<Rightarrow> js_error + string" where
  "renderPart marked stringify part =
     (case part of
        None \<Rightarrow> Inr []
      | Some p \<Rightarrow>
          if \<not> truthy (Some p) then Inr []
          else if js_get p ''type'' = Some (JStr ''text'') then
            (case (if truthy (js_get p ''text'') then js_get p ''text'' else Some (JStr [])) of
               Some (JStr s) \<Rightarrow> Inr (marked s)
             | _ \<Rightarrow> Inl MarkedError)
          else if js_get p ''type'' = Some (JStr ''function_call'') then
            (case htmlEncode (JSON_stringify stringify (js_get p ''args'')) of
               Inl e \<Rightarrow> Inl e
             | Inr code \<Rightarrow> Inr (accordion ''Function Call: '' (js_String (js_get p ''name'')) code))
          else if js_get p ''type'' = Some (JStr ''function_response'') then
            (case htmlEncode (JSON_stringify stringify (js_get p ''response'')) of
               Inl e \<Rightarrow> Inl e
             | Inr code \<Rightarrow>
                 Inr (accordion ''Function Response: '' (js_String (js_get p ''name'')) code))
          else
            (case htmlEncode (JSON_stringify stringify (Some p)) of
               Inl e \<Rightarrow> Inl e
             | Inr code \<Rightarrow> Inr (''<pre><code>'' @ code @ ''</code></pre>'')))"

subsection \<open>getTextFromParts\<close>

text \<open>
  \<^verbatim>\<open>parts.filter(p => p.type === 'text' && p.text).map(p => p.text).join('')\<close>
\<close>

definition getTextFromParts :: "json option \<Rightarrow> js_error + string" where
  "getTextFromParts parts =
     (case array_filter
             (\<lambda>p. js_get p ''type'' = Some (JStr ''text'') \<and> truthy (js_get p ''text'')) parts of
        Inl e \<Rightarrow> Inl e
      | Inr ps \<Rightarrow> Inr (js_join (map (\<lambda>p. js_get p ''text'') ps)))"

subsection \<open>The chat log\<close>

text \<open>
  The element \<^verbatim>\<open>#chat-log\<close> holds one \<^verbatim>\<open>div.message\<close> per bubble, each with
  \<^verbatim>\<open>dataset.role\<close> and a \<^verbatim>\<open>div.content\<close> child.  Of the content div the model keeps
  \<^verbatim>\<open>dataset.rawText\<close>, the string assigned to \<^verbatim>\<open>innerHTML\<close>, and, in place of the
  element tree the browser parses that string into, the list \<open>otherParts\<close> of the parts
  whose renderings were joined into it (after the markdown of the text).  The elements
  \<^verbatim>\<open>querySelectorAll('.accordion')\<close> finds are read off that list: one for each part
  that \<open>renderPart\<close> turns into \<^verbatim>\<open><details class="accordion">\<close>.  (Markup of that class
  written by the markdown renderer, or smuggled in through a name, is outside the model.)
\<close>

record content_div =
  rawText :: string
  innerHTML :: string
  otherParts :: "json list"

record message_div =
  role :: string
  content :: content_div

type_synonym chat_log = "message_div list"

definition renders_accordion :: "json \<Rightarrow> bool" where
  "renders_accordion p \<longleftrightarrow>
     truthy (Some p) \<and>
     (js_get p ''type'' = Some (JStr ''function_call'') \<or>
      js_get p ''type'' = Some (JStr ''function_response''))"

subsection \<open>renderMessageContent\<close>

text \<open>
  \<^verbatim>\<open>renderMessageContent(contentDiv, message)\<close> returns the content div as it leaves it
  and the exception, if one ended the call.  The write of \<^verbatim>\<open>dataset.rawText\<close> comes
  before the parts are rendered, so an exception of \<open>renderPart\<close> leaves the new raw text
  beside the old markup.
\<close>

definition renderMessageContent ::
  "(string \<Rightarrow> string) \<Rightarrow> (json \<Rightarrow> string) \<Rightarrow> content_div \<Rightarrow> json \<Rightarrow>
     content_div \<times> js_error option" where
  "renderMessageContent marked stringify contentDiv message =
     (case array_filter (\<lambda>p. js_get p ''type'' = Some (JStr ''text'')) (js_get message ''parts'') of
        Inl e \<Rightarrow> (contentDiv, Some e)
      | Inr textParts \<Rightarrow>
     (case array_filter (\<lambda>p. js_get p ''type'' \<noteq> Some (JStr ''text'')) (js_get message ''parts'') of
        Inl e \<Rightarrow> (contentDiv, Some e)
      | Inr others \<Rightarrow>
     (case getTextFromParts (Some (JArr textParts)) of
        Inl e \<Rightarrow> (contentDiv, Some e)
      | Inr txt \<Rightarrow>
          (let contentDiv1 = contentDiv\<lparr>rawText := txt\<rparr>;
               html = (if txt \<noteq> [] then marked txt else [])
           in case array_map (\<lambda>p. renderPart marked stringify (Some p)) others of
                Inl e \<Rightarrow> (contentDiv1, Some e)
              | Inr rendered \<Rightarrow>
                  (contentDiv1\<lparr>innerHTML := html @ concat rendered, otherParts := others\<rparr>,
                   None)))))"

subsection \<open>appendMessage\<close>

text \<open>
  \<^verbatim>\<open>classList.add('message', message.role)\<close> throws for a token that is empty or holds
  ASCII white space.
\<close>

definition valid_token :: "string \<Rightarrow> bool" where
  "valid_token s \<longleftrightarrow>
     s \<noteq> [] \<and> (\<forall>c \<in> set s. c \<notin> {CHR 0x09, CHR 0x0A, CHR 0x0C, CHR 0x0D, CHR '' ''})"

text \<open>
  \<^verbatim>\<open>appendMessage(message)\<close>: the chat log afterwards and the exception, if any.  The
  new bubble is attached by the last statement, so a call that throws leaves the log as it
  was.  (The role label \<^verbatim>\<open>roleDiv.textContent\<close> is not kept.)
\<close>

definition appendMessage ::
  "(string \<Rightarrow> string) \<Rightarrow> (json \<Rightarrow> string) \<Rightarrow> json \<Rightarrow> chat_log \<Rightarrow> chat_log \<times> js_error option" where
  "appendMessage marked stringify message chatLog =
     (if message = JNull then (chatLog, Some TypeError)
      else if \<not> valid_token (js_String (js_get message ''role'')) then (chatLog, Some DOMException)
      else
        (case renderMessageContent marked stringify
                \<lparr>rawText = [], innerHTML = [], otherParts = []\<rparr> message of
           (contentDiv, Some e) \<Rightarrow> (chatLog, Some e)
         | (contentDiv, None) \<Rightarrow>
             (chatLog @ [\<lparr>role = js_String (js_get message ''role''), content = contentDiv\<rparr>],
              None)))"

subsection \<open>addOrUpdateMessage\<close>

definition placeholder :: json where
  "placeholder = JObj [(''type'', JStr ''non-text-placeholder'')]"

text \<open>
  \<^verbatim>\<open>addOrUpdateMessage(message)\<close>.  With an empty log \<^verbatim>\<open>lastMessageElement\<close> is
  null and the condition stops there; otherwise it reads \<^verbatim>\<open>message.role\<close>.  In the
  extend branch a throw of \<open>getTextFromParts\<close> comes before any write; a throw inside
  \<open>renderMessageContent\<close> comes after \<^verbatim>\<open>dataset.rawText\<close> was set.
\<close>

definition addOrUpdateMessage ::
  "(string \<Rightarrow> string) \<Rightarrow> (json \<Rightarrow> string) \<Rightarrow> json \<Rightarrow> chat_log \<Rightarrow> chat_log \<times> js_error option" where
  "addOrUpdateMessage marked stringify message chatLog =
     (if chatLog = [] then appendMessage marked stringify message chatLog
      else if message = JNull then (chatLog, Some TypeError)
      else if Some (JStr (role (last chatLog))) = js_get message ''role'' \<and>
              js_get message ''role'' \<noteq> Some (JStr ''user'') then
        (let lastMessageElement = last chatLog;
             contentDiv = content lastMessageElement;
             oldRawText = rawText contentDiv
         in case getTextFromParts (js_get message ''parts'') of
              Inl e \<Rightarrow> (chatLog, Some e)
            | Inr newTextChunk \<Rightarrow>
         (let fullRawText = oldRawText @ newTextChunk;
              contentDiv1 = contentDiv\<lparr>rawText := fullRawText\<rparr>;
              existingNonTextParts =
                map (\<lambda>_. placeholder) (filter renders_accordion (otherParts contentDiv))
          in case array_filter (\<lambda>p. js_get p ''type'' \<noteq> Some (JStr ''text''))
                    (js_get message ''parts'') of
               Inl e \<Rightarrow>
                 (butlast chatLog @ [lastMessageElement\<lparr>content := contentDiv1\<rparr>], Some e)
             | Inr newNonTextParts \<Rightarrow>
          (let updatedMessage =
                 JObj [(''parts'',
                   JArr (existingNonTextParts @ newNonTextParts @
                         [JObj [(''type'', JStr ''text''), (''text'', JStr fullRawText)]]))];
               (contentDiv2, err) =
                 renderMessageContent marked stringify contentDiv1 updatedMessage
           in (butlast chatLog @ [lastMessageElement\<lparr>content := contentDiv2\<rparr>], err))))
      else appendMessage marked stringify message chatLog)"

text \<open>
  A run of chunks through \<open>addOrUpdateMessage\<close>, one after the other, as the stream's
  message handler makes it: the log at the end, and the exceptions raised on the way.
\<close>

fun feed ::
  "(string \<Rightarrow> string) \<Rightarrow> (json \<Rightarrow> string) \<Rightarrow> json list \<Rightarrow> chat_log \<Rightarrow> chat_log \<times> js_error list" where
  "feed marked stringify [] chatLog = (chatLog, [])"
| "feed marked stringify (m # ms) chatLog =
     (case addOrUpdateMessage marked stringify m chatLog of
        (chatLog1, err) \<Rightarrow>
          (case feed marked stringify ms chatLog1 of
             (chatLog2, errs) \<Rightarrow> (chatLog2, (case err of None \<Rightarrow> [] | Some e \<Rightarrow> [e]) @ errs)))"

section \<open>Messages and Parts as they travel\<close>

text \<open>
  The wire shapes: a Message is \<^verbatim>\<open>{role, parts}\<close>; a Part is
  \<^verbatim>\<open>{type: "text", text}\<close>, \<^verbatim>\<open>{type: "function_call", name, args}\<close>,
  \<^verbatim>\<open>{type: "function_response", name, response}\<close>, or an object with any other type
  tag.
\<close>

definition Message :: "string \<Rightarrow> json list \<Rightarrow> json" where
  "Message r ps = JObj [(''role'', JStr r), (''parts'', JArr ps)]"

definition TextPart :: "string \<Rightarrow> json" where
  "TextPart t = JObj [(''type'', JStr ''text''), (''text'', JStr t)]"

definition FunctionCall :: "string \<Rightarrow> json \<Rightarrow> json" where
  "FunctionCall n a = JObj [(''type'', JStr ''function_call''), (''name'', JStr n), (''args'', a)]"

definition FunctionResponse :: "string \<Rightarrow> json \<Rightarrow> json" where
  "FunctionResponse n r =
     JObj [(''type'', JStr ''function_response''), (''name'', JStr n), (''response'', r)]"

text \<open>
  A well-formed Part: an object whose type tag is a string; when the tag is text, its text is
  a string, or absent or falsy; when it is a call or a response, it has a string name and a
  payload.
\<close>

definition is_string :: "json option \<Rightarrow> bool" where
  "is_string v = (case v of Some (JStr s) \<Rightarrow> True | _ \<Rightarrow> False)"

definition well_formed_part :: "json \<Rightarrow> bool" where
  "well_formed_part p \<longleftrightarrow>
     (case p of
        JObj kvs \<Rightarrow>
          (case js_get p ''type'' of
             Some (JStr t) \<Rightarrow>
               if t = ''text'' then is_string (js_get p ''text'') \<or> \<not> truthy (js_get p ''text'')
               else if t = ''function_call'' then
                 is_string (js_get p ''name'') \<and> js_get p ''args'' \<noteq> None
               else if t = ''function_response'' then
                 is_string (js_get p ''name'') \<and> js_get p ''response'' \<noteq> None
               else True
           | _ \<Rightarrow> False)
      | _ \<Rightarrow> False)"

section \<open>Loading the history\<close>

subsection \<open>The merge of consecutive messages\<close>

text \<open>
  \<^verbatim>\<open>...v\<close> in an argument list: an array gives its elements, a string its characters,
  anything else is not iterable.
\<close>

definition js_spread :: "json option \<Rightarrow> js_error + json list" where
  "js_spread v =
     (case v of
        Some (JArr xs) \<Rightarrow> Inr xs
      | Some (JStr s) \<Rightarrow> Inr (map (\<lambda>c. JStr [c]) s)
      | _ \<Rightarrow> Inl TypeError)"

text \<open>
  The object \<open>m\<close> after its parts array has grown to \<open>xs\<close>: the property still names the
  same array.
\<close>

definition with_parts :: "json \<Rightarrow> json list \<Rightarrow> json" where
  "with_parts m xs =
     (case m of
        JObj kvs \<Rightarrow> JObj (map (\<lambda>(k, v). if k = ''parts'' then (k, JArr xs) else (k, v)) kvs)
      | _ \<Rightarrow> m)"

text \<open>
  The callback of \<^verbatim>\<open>history.reduce\<close>.  \<^verbatim>\<open>accumulator[accumulator.length - 1]\<close> is
  undefined for the empty accumulator.  \<^verbatim>\<open>JSON.parse(JSON.stringify(currentMessage))\<close>
  gives a fresh value equal to the message; here, where values have no identity, it is the
  message (the store further down keeps the identities).
\<close>

definition merge_reducer :: "json list \<Rightarrow> json \<Rightarrow> js_error + json list" where
  "merge_reducer accumulator currentMessage =
     (if accumulator \<noteq> [] \<and> truthy (Some (last accumulator)) then
        (let lastMessage = last accumulator in
         if currentMessage = JNull then Inl TypeError
         else if strict_eq (js_get lastMessage ''role'') (js_get currentMessage ''role'') \<and>
                 js_get currentMessage ''role'' \<noteq> Some (JStr ''user'') then
           (case js_get lastMessage ''parts'' of
              Some (JArr xs) \<Rightarrow>
                (case js_spread (js_get currentMessage ''parts'') of
                   Inl e \<Rightarrow> Inl e
                 | Inr items \<Rightarrow> Inr (butlast accumulator @ [with_parts lastMessage (xs @ items)]))
            | _ \<Rightarrow> Inl TypeError)
         else Inr (accumulator @ [currentMessage]))
      else Inr (accumulator @ [currentMessage]))"

fun reduce :: "('b \<Rightarrow> 'a \<Rightarrow> js_error + 'b) \<Rightarrow> 'a list \<Rightarrow> 'b \<Rightarrow> js_error + 'b" where
  "reduce f [] acc = Inr acc"
| "reduce f (x # xs) acc = (case f acc x of Inl e \<Rightarrow> Inl e | Inr acc' \<Rightarrow> reduce f xs acc')"

text \<open>\<^verbatim>\<open>const mergedHistory = history.reduce(..., [])\<close>; only an array has \<^verbatim>\<open>reduce\<close>.\<close>

definition mergedHistory :: "json \<Rightarrow> js_error + json list" where
  "mergedHistory history =
     (case history of JArr ms \<Rightarrow> reduce merge_reducer ms [] | _ \<Rightarrow> Inl TypeError)"

subsection \<open>loadHistory\<close>

text \<open>\<^verbatim>\<open>mergedHistory.forEach(appendMessage)\<close>: the first exception ends the loop.\<close>

fun forEach_appendMessage ::
  "(string \<Rightarrow> string) \<Rightarrow> (json \<Rightarrow> string) \<Rightarrow> json list \<Rightarrow> chat_log \<Rightarrow> chat_log \<times> js_error option" where
  "forEach_appendMessage marked stringify [] chatLog = (chatLog, None)"
| "forEach_appendMessage marked stringify (m # ms) chatLog =
     (case appendMessage marked stringify m chatLog of
        (chatLog1, Some e) \<Rightarrow> (chatLog1, Some e)
      | (chatLog1, None) \<Rightarrow> forEach_appendMessage marked stringify ms chatLog1)"

text \<open>
  What \<^verbatim>\<open>await fetch('/chat')\<close> and \<^verbatim>\<open>await response.json()\<close> come to: a rejection
  (with the error's message), a response whose \<^verbatim>\<open>ok\<close> is false (with its status), or
  the parsed body.
\<close>

datatype fetched = Rejected string | NotOk nat | Body json

text \<open>
  \<^verbatim>\<open>loadHistory()\<close>.  The log is emptied once the body has arrived.  The catch block
  appends a system message with the text of the error; for an exception raised by the page
  itself that text is the browser's, the parameter \<open>message_of\<close>.
\<close>

definition loadHistory ::
  "(string \<Rightarrow> string) \<Rightarrow> (json \<Rightarrow> string) \<Rightarrow> (js_error \<Rightarrow> string) \<Rightarrow> fetched \<Rightarrow> chat_log \<Rightarrow>
     chat_log" where
  "loadHistory marked stringify message_of response chatLog =
     (let catch = (\<lambda>msg log.
            fst (appendMessage marked stringify
              (Message ''system'' [TextPart (''Error loading history: '' @ msg)]) log))
      in case response of
           Rejected msg \<Rightarrow> catch msg chatLog
         | NotOk status \<Rightarrow> catch (''HTTP error! Status: '' @ digits status) chatLog
         | Body history \<Rightarrow>
             (case mergedHistory history of
                Inl e \<Rightarrow> catch (message_of e) []
              | Inr merged \<Rightarrow>
                  (case forEach_appendMessage marked stringify merged [] of
                     (log, None) \<Rightarrow> log
                   | (log, Some e) \<Rightarrow> catch (message_of e) log)))"

subsection \<open>The fold on a store\<close>

text \<open>
  Whether the fold writes into its argument depends on which objects are shared, so here the
  messages live in a store.  A cell is a message object (its role and the address of its
  parts array) or a parts array; an address is an index into the store, and a new object is
  put at its end.  The history is the list of the addresses of its messages.  The Parts
  themselves are kept as values: the fold shares them between arrays and nothing on the
  page writes into one.
\<close>

datatype cell = MessageObject string nat | PartsArray "json list"

type_synonym store = "cell list"

definition message_at :: "store \<Rightarrow> nat \<Rightarrow> (string \<times> nat) option" where
  "message_at h a =
     (if a < length h then (case h ! a of MessageObject r p \<Rightarrow> Some (r, p) | _ \<Rightarrow> None)
      else None)"

definition array_at :: "store \<Rightarrow> nat \<Rightarrow> json list option" where
  "array_at h a =
     (if a < length h then (case h ! a of PartsArray xs \<Rightarrow> Some xs | _ \<Rightarrow> None) else None)"

text \<open>
  \<^verbatim>\<open>JSON.parse(JSON.stringify(currentMessage))\<close>: a new parts array and a new message
  object that names it.
\<close>

definition deep_copy :: "store \<Rightarrow> nat \<Rightarrow> (store \<times> nat) option" where
  "deep_copy h a =
     (case message_at h a of
        None \<Rightarrow> None
      | Some (r, p) \<Rightarrow>
          (case array_at h p of
             None \<Rightarrow> None
           | Some xs \<Rightarrow> Some (h @ [PartsArray xs, MessageObject r (length h)], Suc (length h))))"

text \<open>
  The callback of \<^verbatim>\<open>reduce\<close> on the store; \<^verbatim>\<open>lastMessage.parts.push(...)\<close> is the
  one write into an existing cell.  \<open>None\<close> is an address that holds no object of the
  kind read.
\<close>

definition merge_reducer_store :: "store \<times> nat list \<Rightarrow> nat \<Rightarrow> (store \<times> nat list) option" where
  "merge_reducer_store st currentMessage =
     (case st of (h, accumulator) \<Rightarrow>
        (case message_at h currentMessage of
           None \<Rightarrow> None
         | Some (rc, pc) \<Rightarrow>
             (let push_copy =
                    (case deep_copy h currentMessage of
                       None \<Rightarrow> None
                     | Some (h', a) \<Rightarrow> Some (h', accumulator @ [a]))
              in if accumulator = [] then push_copy
                 else
                   (case message_at h (last accumulator) of
                      None \<Rightarrow> None
                    | Some (rl, pl) \<Rightarrow>
                        if rl = rc \<and> rc \<noteq> ''user'' then
                          (case (array_at h pl, array_at h pc) of
                             (Some xs, Some ys) \<Rightarrow>
                               Some (h[pl := PartsArray (xs @ ys)], accumulator)
                           | _ \<Rightarrow> None)
                        else push_copy))))"

fun mergedHistory_store :: "store \<times> nat list \<Rightarrow> nat list \<Rightarrow> (store \<times> nat list) option" where
  "mergedHistory_store st [] = Some st"
| "mergedHistory_store st (a # as) =
     (case merge_reducer_store st a of
        None \<Rightarrow> None
      | Some st' \<Rightarrow> mergedHistory_store st' as)"

text \<open>The Message a message object of the store stands for.\<close>

definition read_message :: "store \<Rightarrow> nat \<Rightarrow> json" where
  "read_message h a =
     (case message_at h a of
        Some (r, p) \<Rightarrow> (case array_at h p of Some xs \<Rightarrow> Message r xs | None \<Rightarrow> JNull)
      | None \<Rightarrow> JNull)"

text \<open>A history in the store: every address holds a message object with a parts array.\<close>

definition history_in_store :: "store \<Rightarrow> nat list \<Rightarrow> bool" where
  "history_in_store h history \<longleftrightarrow>
     list_all (\<lambda>a. case message_at h a of
                     Some (r, p) \<Rightarrow> array_at h p \<noteq> None
                   | None \<Rightarrow> False) history"

section \<open>One turn\<close>

text \<open>
  The state the handlers of \<^verbatim>\<open>handleFormSubmit\<close> share: the chat log, the two
  \<^verbatim>\<open>disabled\<close> flags, whether the event stream has been closed by the page, and what
  was written to the console.
\<close>

datatype console_line =
    Failed_to_parse string    \<comment> \<open>\<^verbatim>\<open>console.error('Failed to parse SSE message data:', e.data, err)\<close>\<close>
  | SSE_Error                 \<comment> \<open>\<^verbatim>\<open>console.error('SSE Error:', e)\<close>\<close>
  | Stream_finished           \<comment> \<open>\<^verbatim>\<open>console.log('SSE Stream finished and closed.')\<close>\<close>

record page =
  chatLog :: chat_log
  chatInput_disabled :: bool
  sendButton_disabled :: bool
  sse_closed :: bool
  console :: "console_line list"

text \<open>
  The listener for \<^verbatim>\<open>message\<close> events.  \<open>data\<close> is \<^verbatim>\<open>e.data\<close>, absent or a
  string; \<^verbatim>\<open>JSON.parse\<close> is the parameter \<open>parse\<close>, \<open>None\<close> where it throws.  The
  catch block takes every exception of the try block, those of \<open>addOrUpdateMessage\<close> too.
\<close>

definition on_message ::
  "(string \<Rightarrow> string) \<Rightarrow> (json \<Rightarrow> string) \<Rightarrow> (string \<Rightarrow> json option) \<Rightarrow> string option \<Rightarrow> page \<Rightarrow>
     page" where
  "on_message marked stringify parse data st =
     (case data of
        None \<Rightarrow> st
      | Some d \<Rightarrow>
          if d = [] then st
          else
            (case parse d of
               None \<Rightarrow> st\<lparr>console := console st @ [Failed_to_parse d]\<rparr>
             | Some message \<Rightarrow>
                 (case addOrUpdateMessage marked stringify message (chatLog st) of
                    (log, None) \<Rightarrow> st\<lparr>chatLog := log\<rparr>
                  | (log, Some e) \<Rightarrow>
                      st\<lparr>chatLog := log, console := console st @ [Failed_to_parse d]\<rparr>)))"

text \<open>
  The listener for \<^verbatim>\<open>error\<close> events: it calls \<open>appendMessage\<close>, not
  \<open>addOrUpdateMessage\<close>.  Were \<open>appendMessage\<close> to throw, the statements after it would
  not run.
\<close>

definition errorMessage :: json where
  "errorMessage = Message ''system'' [TextPart ''Connection error. Please try again.'']"

definition on_error :: "(string \<Rightarrow> string) \<Rightarrow> (json \<Rightarrow> string) \<Rightarrow> page \<Rightarrow> page" where
  "on_error marked stringify st =
     (case appendMessage marked stringify errorMessage (chatLog st) of
        (log, None) \<Rightarrow>
          st\<lparr>chatLog := log, console := console st @ [SSE_Error], sse_closed := True,
             chatInput_disabled := False, sendButton_disabled := False\<rparr>
      | (log, Some e) \<Rightarrow> st\<lparr>chatLog := log, console := console st @ [SSE_Error]\<rparr>)"

text \<open>The listener for \<^verbatim>\<open>readystatechange\<close>; \<open>closed\<close> is \<^verbatim>\<open>e.readyState === SSE.CLOSED\<close>.\<close>

definition on_readystatechange :: "bool \<Rightarrow> page \<Rightarrow> page" where
  "on_readystatechange closed st =
     (if closed then
        st\<lparr>console := console st @ [Stream_finished],
           chatInput_disabled := False, sendButton_disabled := False\<rparr>
      else st)"

text \<open>
  What the message listener takes for a Message.  The page has no check of its own: a value
  is merged when \<^verbatim>\<open>JSON.parse\<close> returns it and it carries a parts array without
  null elements, whatever its role.
\<close>

definition has_parts_array :: "json \<Rightarrow> bool" where
  "has_parts_array v \<longleftrightarrow>
     (case js_get v ''parts'' of Some (JArr ps) \<Rightarrow> JNull \<notin> set ps | _ \<Rightarrow> False)"

definition parses_as_message :: "(string \<Rightarrow> json option) \<Rightarrow> string \<Rightarrow> bool" where
  "parses_as_message parse d \<longleftrightarrow>
     (case parse d of None \<Rightarrow> False | Some v \<Rightarrow> has_parts_array v)"

section \<open>Well-formed Messages, and the text of a list of Parts\<close>

text \<open>
  A well-formed Message: an object whose role is a string the page can use as a class name
  (user, model, tool and system are such) and whose parts are an array of well-formed Parts.
\<close>

definition role_of :: "json \<Rightarrow> string" where
  "role_of m = (case js_get m ''role'' of Some (JStr r) \<Rightarrow> r | _ \<Rightarrow> [])"

definition parts_of :: "json \<Rightarrow> json list" where
  "parts_of m = (case js_get m ''parts'' of Some (JArr ps) \<Rightarrow> ps | _ \<Rightarrow> [])"

definition is_array :: "json option \<Rightarrow> bool" where
  "is_array v = (case v of Some (JArr xs) \<Rightarrow> True | _ \<Rightarrow> False)"

definition well_formed_message :: "json \<Rightarrow> bool" where
  "well_formed_message m \<longleftrightarrow>
     is_string (js_get m ''role'') \<and> valid_token (role_of m) \<and>
     is_array (js_get m ''parts'') \<and> list_all well_formed_part (parts_of m)"

text \<open>
  The classification of Parts: \<open>isText\<close>, and \<open>textOf\<close>, the text of a Part, empty when
  the field is absent or is no string.  The raw text a list of Parts stands for is the concatenation of the
  texts of its text Parts, in order; Parts of any other type add nothing.
\<close>

definition isText :: "json \<Rightarrow> bool" where
  "isText p \<longleftrightarrow> js_get p ''type'' = Some (JStr ''text'')"

definition textOf :: "json \<Rightarrow> string" where
  "textOf p = (case js_get p ''text'' of Some (JStr s) \<Rightarrow> s | _ \<Rightarrow> [])"

definition text_folded :: "json list \<Rightarrow> string" where
  "text_folded ps = concat (map textOf (filter isText ps))"

section \<open>Calls on the chat log, and the Parts folded into each entry\<close>

text \<open>
  The calls the page makes on the chat log are \<open>addOrUpdateMessage\<close> (a submitted user
  message, a chunk of the stream) and \<open>appendMessage\<close> (a merged message of the history,
  an error message).  \<open>run\<close> makes a list of them in order and collects the exceptions.
\<close>

datatype call = AddOrUpdate json | Append json

fun message_of_call :: "call \<Rightarrow> json" where
  "message_of_call (AddOrUpdate m) = m"
| "message_of_call (Append m) = m"

fun run ::
  "(string \<Rightarrow> string) \<Rightarrow> (json \<Rightarrow> string) \<Rightarrow> call list \<Rightarrow> chat_log \<Rightarrow> chat_log \<times> js_error list" where
  "run marked stringify [] log = (log, [])"
| "run marked stringify (c # cs) log =
     (case (case c of
              AddOrUpdate m \<Rightarrow> addOrUpdateMessage marked stringify m log
            | Append m \<Rightarrow> appendMessage marked stringify m log) of
        (log1, err) \<Rightarrow>
          (case run marked stringify cs log1 of
             (log2, errs) \<Rightarrow> (log2, (case err of None \<Rightarrow> [] | Some e \<Rightarrow> [e]) @ errs)))"

text \<open>
  The Parts folded into each entry, by the rule of Live Update Merge: a call of
  \<open>appendMessage\<close> starts an entry; a call of \<open>addOrUpdateMessage\<close> starts one when the
  transcript is empty, the last entry has another role, or the role is user, and otherwise
  folds the Parts of its Message into the last entry.  An entry is its role and the Parts
  folded into it since it was created, in order.
\<close>

fun folded :: "call list \<Rightarrow> (string \<times> json list) list \<Rightarrow> (string \<times> json list) list" where
  "folded [] t = t"
| "folded (Append m # cs) t = folded cs (t @ [(role_of m, parts_of m)])"
| "folded (AddOrUpdate m # cs) t =
     folded cs
       (if t = [] \<or> fst (last t) \<noteq> role_of m \<or> role_of m = ''user''
        then t @ [(role_of m, parts_of m)]
        else butlast t @ [(fst (last t), snd (last t) @ parts_of m)])"

section \<open>Notions the proofs use\<close>

text \<open>
  The content div a call of \<open>renderMessageContent\<close> leaves when nothing throws, given the
  raw text and the parts other than text.
\<close>

definition rendered ::
  "(string \<Rightarrow> string) \<Rightarrow> (json \<Rightarrow> string) \<Rightarrow> string \<Rightarrow> json list \<Rightarrow> content_div" where
  "rendered marked stringify txt others =
     \<lparr>rawText = txt,
      innerHTML = (if txt \<noteq> [] then marked txt else []) @
                  concat (map (\<lambda>p. projr (renderPart marked stringify (Some p))) others),
      otherParts = others\<rparr>"

text \<open>
  The chat log shows the text of a transcript: entry by entry the same role, and as raw
  text the concatenation of the texts of the text Parts folded into the entry.
\<close>

definition agrees :: "chat_log \<Rightarrow> (string \<times> json list) list \<Rightarrow> bool" where
  "agrees log t \<longleftrightarrow>
     map (\<lambda>e. (role e, rawText (content e))) log = map (\<lambda>(r, ps). (r, text_folded ps)) t"

text \<open>
  The reducer of the history on well-formed Messages, where it cannot throw, and the bubble
  \<open>appendMessage\<close> makes of a well-formed Message.
\<close>

definition merge_step :: "json list \<Rightarrow> json \<Rightarrow> json list" where
  "merge_step accumulator currentMessage =
     (if accumulator \<noteq> [] \<and> role_of (last accumulator) = role_of currentMessage \<and>
         role_of currentMessage \<noteq> ''user''
      then butlast accumulator @
             [with_parts (last accumulator)
                (parts_of (last accumulator) @ parts_of currentMessage)]
      else accumulator @ [currentMessage])"

definition bubble :: "(string \<Rightarrow> string) \<Rightarrow> (json \<Rightarrow> string) \<Rightarrow> json \<Rightarrow> message_div" where
  "bubble marked stringify m =
     \<lparr>role = role_of m,
      content = rendered marked stringify (text_folded (parts_of m))
                  (filter (\<lambda>p. js_get p ''type'' \<noteq> Some (JStr ''text'')) (parts_of m))\<rparr>"

text \<open>
  What holds of the accumulator while the fold runs on a store whose first \<open>n\<close> cells are
  the caller's: every message of the accumulator, and its parts array, was made by the fold
  (its address is \<open>n\<close> or more), and no two messages of the accumulator share a parts
  array.
\<close>

definition parts_address :: "store \<Rightarrow> nat \<Rightarrow> nat" where
  "parts_address h a = (case message_at h a of Some (r, p) \<Rightarrow> p | None \<Rightarrow> 0)"

definition own_copies :: "nat \<Rightarrow> store \<Rightarrow> nat list \<Rightarrow> bool" where
  "own_copies n h accumulator \<longleftrightarrow>
     n \<le> length h \<and>
     (\<forall>a \<in> set accumulator.
        n \<le> a \<and> message_at h a \<noteq> None \<and> n \<le> parts_address h a \<and>
        array_at h (parts_address h a) \<noteq> None) \<and>
     distinct (map (parts_address h) accumulator)"

text \<open>The least the reducer of the history asks of a Message: a string role and a parts array.\<close>

definition message_shaped :: "json \<Rightarrow> bool" where
  "message_shaped m \<longleftrightarrow> is_string (js_get m ''role'') \<and> is_array (js_get m ''parts'')"

text \<open>What \<open>htmlEncode\<close> makes of one character.\<close>

definition escape_char :: "char \<Rightarrow> string" where
  "escape_char c =
     (if c = CHR ''&'' then ''&amp;''
      else if c = CHR ''<'' then ''&lt;''
      else if c = CHR ''>'' then ''&gt;''
      else [c])"

section \<open>Sample data\<close>

text \<open>
  The chunks of the streaming scenario, a history, a page in the middle of a turn, and a
  \<^verbatim>\<open>JSON.parse\<close> that knows the text of one chunk and rejects everything else.
\<close>

definition chunk_text1 :: json where
  "chunk_text1 = Message ''model'' [TextPart ''The answer is '']"

definition chunk_call :: json where
  "chunk_call = Message ''model'' [FunctionCall ''calc'' (JObj [(''x'', JNum 1)])]"

definition chunk_text2 :: json where
  "chunk_text2 = Message ''model'' [TextPart ''42'']"

definition chunk_response :: json where
  "chunk_response = Message ''model'' [FunctionResponse ''calc'' (JNum 42)]"

definition whole_turn :: json where
  "whole_turn =
     Message ''model''
       [TextPart ''The answer is '', FunctionCall ''calc'' (JObj [(''x'', JNum 1)]),
        TextPart ''42'']"

definition sample_history :: "json list" where
  "sample_history =
     [Message ''user'' [TextPart ''hi''],
      Message ''model'' [TextPart ''Hel''],
      Message ''model'' [TextPart ''lo!'']]"

definition sample_calls :: "call list" where
  "sample_calls =
     [AddOrUpdate (Message ''user'' [TextPart ''2 * 21?'']),
      AddOrUpdate chunk_text1, AddOrUpdate chunk_call, AddOrUpdate chunk_text2,
      Append errorMessage]"

definition sample_store :: store where
  "sample_store =
     [PartsArray [TextPart ''hi''], MessageObject ''user'' 0,
      PartsArray [TextPart ''Hel''], MessageObject ''model'' 2,
      PartsArray [TextPart ''lo!''], MessageObject ''model'' 4]"

definition streaming_page :: page where
  "streaming_page =
     \<lparr>chatLog = [], chatInput_disabled = True, sendButton_disabled = True, sse_closed = False,
      console = []\<rparr>"

definition sample_parse :: "string \<Rightarrow> json option" where
  "sample_parse s = (if s = ''<chunk_text2>'' then Some chunk_text2 else None)"

section \<open>Well-formed Parts and Messages never throw\<close>

lemma well_formed_part_not_null: "well_formed_part p \<Longrightarrow> p \<noteq> JNull"
  by (auto simp: well_formed_part_def)

lemma is_string_iff: "is_string v \<longleftrightarrow> (\<exists>s. v = Some (JStr s))"
  by (auto simp: is_string_def split: option.splits json.splits)

lemma well_formed_text_part:
  "well_formed_part p \<Longrightarrow> isText p \<Longrightarrow>
   (\<exists>s. js_get p ''text'' = Some (JStr s)) \<or> \<not> truthy (js_get p ''text'')"
  by (cases p) (auto simp: well_formed_part_def isText_def is_string_iff)

lemma textOf_falsy: "\<not> truthy (js_get p ''text'') \<Longrightarrow> textOf p = []"
proof (cases "js_get p ''text''")
  case None
  then show ?thesis by (simp add: textOf_def)
next
  case (Some v)
  assume "\<not> truthy (js_get p ''text'')"
  with Some show ?thesis by (cases v) (simp_all add: textOf_def)
qed

lemma well_formed_parts_no_null: "list_all well_formed_part ps \<Longrightarrow> JNull \<notin> set ps"
  by (auto simp: list_all_iff dest: well_formed_part_not_null)

lemma array_filter_array: "JNull \<notin> set ps \<Longrightarrow> array_filter P (Some (JArr ps)) = Inr (filter P ps)"
  by (simp add: array_filter_def)

lemma js_join_append: "js_join (xs @ ys) = js_join xs @ js_join ys"
  by (simp add: js_join_def)

lemma text_of_well_formed:
  "list_all well_formed_part ps \<Longrightarrow>
   js_join (map (\<lambda>p. js_get p ''text'')
      (filter (\<lambda>p. js_get p ''type'' = Some (JStr ''text'') \<and> truthy (js_get p ''text'')) ps))
   = text_folded ps"
proof (induction ps)
  case Nil
  show ?case by (simp add: js_join_def text_folded_def)
next
  case (Cons p ps)
  then have wf: "well_formed_part p" and rest: "list_all well_formed_part ps" by simp_all
  have tail: "js_join (map (\<lambda>p. js_get p ''text'')
      (filter (\<lambda>p. js_get p ''type'' = Some (JStr ''text'') \<and> truthy (js_get p ''text'')) ps))
   = text_folded ps" using Cons.IH rest by simp
  show ?case
  proof (cases "isText p")
    case False
    then show ?thesis using tail by (simp add: isText_def text_folded_def)
  next
    case True
    show ?thesis
    proof (cases "truthy (js_get p ''text'')")
      case False
      with True tail textOf_falsy [OF False] show ?thesis
        by (simp add: isText_def text_folded_def)
    next
      case truthy: True
      with wf True obtain s where s: "js_get p ''text'' = Some (JStr s)"
        using well_formed_text_part by blast
      with truthy True tail show ?thesis
        by (simp add: isText_def text_folded_def textOf_def js_join_def)
    qed
  qed
qed

lemma getTextFromParts_well_formed:
  "list_all well_formed_part ps \<Longrightarrow> getTextFromParts (Some (JArr ps)) = Inr (text_folded ps)"
  by (simp add: getTextFromParts_def array_filter_array well_formed_parts_no_null text_of_well_formed)


lemma text_folded_append: "text_folded (xs @ ys) = text_folded xs @ text_folded ys"
  by (simp add: text_folded_def)

lemma text_folded_filter_text:
  "text_folded (filter (\<lambda>p. js_get p ''type'' = Some (JStr ''text'')) ps) = text_folded ps"
  by (induction ps) (simp_all add: text_folded_def isText_def)

lemma array_map_total:
  "\<forall>x \<in> set xs. \<not> isl (f x) \<Longrightarrow> array_map f xs = Inr (map (\<lambda>x. projr (f x)) xs)"
  by (induction xs) (auto split: sum.splits)

lemma well_formed_part_cases:
  assumes "well_formed_part p"
  obtains kvs t where "p = JObj kvs" and "map_of kvs ''type'' = Some (JStr t)"
  using assms by (cases p) (auto simp: well_formed_part_def split: option.splits json.splits)

lemma well_formed_part_truthy: "well_formed_part p \<Longrightarrow> truthy (Some p)"
  by (erule well_formed_part_cases) simp

lemma well_formed_call_args:
  "well_formed_part p \<Longrightarrow> js_get p ''type'' = Some (JStr ''function_call'') \<Longrightarrow>
   js_get p ''args'' \<noteq> None"
  by (cases p) (simp_all add: well_formed_part_def)

lemma well_formed_response_payload:
  "well_formed_part p \<Longrightarrow> js_get p ''type'' = Some (JStr ''function_response'') \<Longrightarrow>
   js_get p ''response'' \<noteq> None"
  by (cases p) (simp_all add: well_formed_part_def)

lemma renderPart_well_formed:
  assumes wf: "well_formed_part p" and nt: "js_get p ''type'' \<noteq> Some (JStr ''text'')"
  shows "\<not> isl (renderPart marked stringify (Some p))"
proof -
  have tr: "truthy (Some p)" using wf by (rule well_formed_part_truthy)
  consider (call) "js_get p ''type'' = Some (JStr ''function_call'')"
    | (resp) "js_get p ''type'' = Some (JStr ''function_response'')"
    | (other) "js_get p ''type'' \<noteq> Some (JStr ''function_call'')"
        "js_get p ''type'' \<noteq> Some (JStr ''function_response'')"
    by blast
  then show ?thesis
  proof cases
    case call
    with well_formed_call_args [OF wf] obtain a where "js_get p ''args'' = Some a" by auto
    with call tr show ?thesis
      by (simp add: renderPart_def htmlEncode_def JSON_stringify_def)
  next
    case resp
    with well_formed_response_payload [OF wf] obtain a where "js_get p ''response'' = Some a"
      by auto
    with resp tr show ?thesis
      by (simp add: renderPart_def htmlEncode_def JSON_stringify_def)
  next
    case other
    with nt tr show ?thesis
      by (simp add: renderPart_def htmlEncode_def JSON_stringify_def)
  qed
qed

lemma renderPart_placeholder: "\<not> isl (renderPart marked stringify (Some placeholder))"
  by (simp add: renderPart_def placeholder_def htmlEncode_def JSON_stringify_def)

lemma renderMessageContent_total:
  assumes parts: "js_get m ''parts'' = Some (JArr ps)"
    and nonnull: "JNull \<notin> set ps"
    and tx: "getTextFromParts (Some (JArr (filter (\<lambda>p. js_get p ''type'' = Some (JStr ''text'')) ps))) = Inr txt"
    and ok: "\<forall>p \<in> set ps. js_get p ''type'' \<noteq> Some (JStr ''text'') \<longrightarrow>
               \<not> isl (renderPart marked stringify (Some p))"
  shows "renderMessageContent marked stringify c m =
           (rendered marked stringify txt
              (filter (\<lambda>p. js_get p ''type'' \<noteq> Some (JStr ''text'')) ps), None)"
proof -
  have m: "array_map (\<lambda>p. renderPart marked stringify (Some p))
             (filter (\<lambda>p. js_get p ''type'' \<noteq> Some (JStr ''text'')) ps)
           = Inr (map (\<lambda>p. projr (renderPart marked stringify (Some p)))
                    (filter (\<lambda>p. js_get p ''type'' \<noteq> Some (JStr ''text'')) ps))"
    using ok by (intro array_map_total) simp
  show ?thesis
    by (simp add: renderMessageContent_def parts array_filter_array nonnull tx m rendered_def Let_def)
qed

lemma is_array_iff: "is_array v \<longleftrightarrow> (\<exists>xs. v = Some (JArr xs))"
  by (auto simp: is_array_def split: option.splits json.splits)

lemma well_formed_message_cases:
  assumes "well_formed_message m"
  obtains r ps where "js_get m ''role'' = Some (JStr r)" and "js_get m ''parts'' = Some (JArr ps)"
    and "valid_token r" and "list_all well_formed_part ps"
proof -
  from assms obtain r ps where r: "js_get m ''role'' = Some (JStr r)"
    and ps: "js_get m ''parts'' = Some (JArr ps)"
    by (auto simp: well_formed_message_def is_string_iff is_array_iff)
  moreover from assms r ps have "valid_token r" "list_all well_formed_part ps"
    by (simp_all add: well_formed_message_def role_of_def parts_of_def)
  ultimately show thesis using that by blast
qed

lemma appendMessage_well_formed:
  assumes "well_formed_message m"
  shows "appendMessage marked stringify m log =
           (log @ [\<lparr>role = role_of m,
                    content = rendered marked stringify (text_folded (parts_of m))
                       (filter (\<lambda>p. js_get p ''type'' \<noteq> Some (JStr ''text'')) (parts_of m))\<rparr>],
            None)"
proof -
  from assms obtain r ps where r: "js_get m ''role'' = Some (JStr r)"
    and ps: "js_get m ''parts'' = Some (JArr ps)"
    and tok: "valid_token r" and wf: "list_all well_formed_part ps"
    by (rule well_formed_message_cases)
  have nn: "m \<noteq> JNull" using r by auto
  have t: "getTextFromParts (Some (JArr (filter (\<lambda>p. js_get p ''type'' = Some (JStr ''text'')) ps)))
             = Inr (text_folded ps)"
    using wf by (simp add: getTextFromParts_well_formed list_all_iff text_folded_filter_text)
  have ok: "\<forall>p \<in> set ps. js_get p ''type'' \<noteq> Some (JStr ''text'') \<longrightarrow>
               \<not> isl (renderPart marked stringify (Some p))"
    using wf renderPart_well_formed by (auto simp: list_all_iff)
  have rm: "renderMessageContent marked stringify c m =
           (rendered marked stringify (text_folded ps)
              (filter (\<lambda>p. js_get p ''type'' \<noteq> Some (JStr ''text'')) ps), None)" for c
    by (rule renderMessageContent_total [OF ps well_formed_parts_no_null [OF wf] t ok])
  have tok': "valid_token (js_String (js_get m ''role''))"
    using tok by (simp add: r js_String_def)
  show ?thesis
    unfolding appendMessage_def
    by (simp add: nn tok' rm) (simp add: r ps js_String_def role_of_def parts_of_def)
qed

section \<open>The two branches of addOrUpdateMessage\<close>

lemma addOrUpdateMessage_new:
  assumes "well_formed_message m"
    and "log = [] \<or> role (last log) \<noteq> role_of m \<or> role_of m = ''user''"
  shows "addOrUpdateMessage marked stringify m log = appendMessage marked stringify m log"
proof -
  from assms(1) obtain r ps where r: "js_get m ''role'' = Some (JStr r)"
    by (rule well_formed_message_cases)
  then have "role_of m = r" by (simp add: role_of_def)
  with assms(2) r show ?thesis
    by (auto simp: addOrUpdateMessage_def)
qed

lemma getTextFromParts_single:
  "getTextFromParts (Some (JArr [JObj [(''type'', JStr ''text''), (''text'', JStr s)]])) = Inr s"
  by (simp add: getTextFromParts_def array_filter_def js_join_def)

lemma filter_text_placeholders:
  "filter (\<lambda>p. js_get p ''type'' = Some (JStr ''text'')) (map (\<lambda>_. placeholder) xs) = []"
  by (induction xs) (simp_all add: placeholder_def)

lemma filter_nontext_placeholders:
  "filter (\<lambda>p. js_get p ''type'' \<noteq> Some (JStr ''text'')) (map (\<lambda>_. placeholder) xs) =
   map (\<lambda>_. placeholder) xs"
  by (induction xs) (simp_all add: placeholder_def)

lemma filter_text_nontext:
  "filter (\<lambda>p. js_get p ''type'' = Some (JStr ''text''))
     (filter (\<lambda>p. js_get p ''type'' \<noteq> Some (JStr ''text'')) ps) = []"
  by (induction ps) simp_all

lemma addOrUpdateMessage_extend:
  assumes wfm: "well_formed_message m"
    and ne: "log \<noteq> []" and same: "role (last log) = role_of m" and nu: "role_of m \<noteq> ''user''"
  shows "addOrUpdateMessage marked stringify m log =
           (butlast log @
              [(last log)\<lparr>content :=
                 rendered marked stringify
                   (rawText (content (last log)) @ text_folded (parts_of m))
                   (map (\<lambda>_. placeholder)
                      (filter renders_accordion (otherParts (content (last log)))) @
                    filter (\<lambda>p. js_get p ''type'' \<noteq> Some (JStr ''text'')) (parts_of m))\<rparr>],
            None)"
proof -
  from wfm obtain r ps where r: "js_get m ''role'' = Some (JStr r)"
    and ps: "js_get m ''parts'' = Some (JArr ps)"
    and wf: "list_all well_formed_part ps"
    by (rule well_formed_message_cases)
  have ro: "role_of m = r" and po: "parts_of m = ps"
    using r ps by (simp_all add: role_of_def parts_of_def)
  have nn: "m \<noteq> JNull" using r by auto
  have nonnull: "JNull \<notin> set ps" using wf by (rule well_formed_parts_no_null)
  define old where "old = filter renders_accordion (otherParts (content (last log)))"
  define full where "full = rawText (content (last log)) @ text_folded ps"
  define new where "new = filter (\<lambda>p. js_get p ''type'' \<noteq> Some (JStr ''text'')) ps"
  define textPart where "textPart = JObj [(''type'', JStr ''text''), (''text'', JStr full)]"
  define all where "all = map (\<lambda>_. placeholder) old @ new @ [textPart]"
  define updatedMessage where "updatedMessage = JObj [(''parts'', JArr all)]"
  have parts: "js_get updatedMessage ''parts'' = Some (JArr all)"
    by (simp add: updatedMessage_def)
  have nonnull_all: "JNull \<notin> set all"
    using nonnull by (auto simp: all_def new_def placeholder_def textPart_def)
  have ft: "filter (\<lambda>p. js_get p ''type'' = Some (JStr ''text'')) all = [textPart]"
    by (simp add: all_def new_def filter_text_placeholders filter_text_nontext textPart_def)
  have fn: "filter (\<lambda>p. js_get p ''type'' \<noteq> Some (JStr ''text'')) all =
              map (\<lambda>_. placeholder) old @ new"
    by (simp add: all_def new_def filter_nontext_placeholders textPart_def)
  have tx: "getTextFromParts
              (Some (JArr (filter (\<lambda>p. js_get p ''type'' = Some (JStr ''text'')) all))) = Inr full"
    by (simp add: ft textPart_def getTextFromParts_single)
  have ok: "\<forall>p \<in> set all. js_get p ''type'' \<noteq> Some (JStr ''text'') \<longrightarrow>
               \<not> isl (renderPart marked stringify (Some p))"
  proof (intro ballI impI)
    fix p assume p: "p \<in> set all" and nt: "js_get p ''type'' \<noteq> Some (JStr ''text'')"
    from p consider "p = placeholder" | "p \<in> set new" | "p = textPart"
      by (auto simp: all_def)
    then show "\<not> isl (renderPart marked stringify (Some p))"
    proof cases
      case 1 then show ?thesis by (simp add: renderPart_placeholder)
    next
      case 2
      then have "well_formed_part p" using wf by (auto simp: new_def list_all_iff)
      then show ?thesis using nt by (rule renderPart_well_formed)
    next
      case 3 with nt show ?thesis by (simp add: textPart_def)
    qed
  qed
  have rm: "renderMessageContent marked stringify c updatedMessage =
              (rendered marked stringify full (map (\<lambda>_. placeholder) old @ new), None)" for c
    using renderMessageContent_total [OF parts nonnull_all tx ok] by (simp add: fn)
  have cond: "Some (JStr (role (last log))) = js_get m ''role''"
    using same ro r by simp
  have nuser: "js_get m ''role'' \<noteq> Some (JStr ''user'')"
    using nu ro r by simp
  have gt: "getTextFromParts (js_get m ''parts'') = Inr (text_folded ps)"
    using wf by (simp add: ps getTextFromParts_well_formed)
  have af: "array_filter (\<lambda>p. js_get p ''type'' \<noteq> Some (JStr ''text'')) (js_get m ''parts'') = Inr new"
    by (simp add: ps array_filter_array nonnull new_def)
  show ?thesis
    unfolding addOrUpdateMessage_def
    apply (simp only: ne nn cond nuser if_False if_True simp_thms gt af Let_def sum.case)
    apply (fold old_def full_def)
    apply (fold textPart_def)
    apply (fold all_def)
    apply (fold updatedMessage_def)
    apply (simp add: rm po full_def old_def new_def)
    done
qed

section \<open>Raw text fidelity\<close>

lemma rawText_rendered [simp]: "rawText (rendered marked stringify s others) = s"
  by (simp add: rendered_def)

lemma otherParts_rendered [simp]: "otherParts (rendered marked stringify s others) = others"
  by (simp add: rendered_def)

lemma agrees_empty: "agrees log t \<Longrightarrow> log = [] \<longleftrightarrow> t = []"
  by (auto simp: agrees_def)

lemma agrees_last:
  assumes "agrees log t" and "log \<noteq> []"
  shows "role (last log) = fst (last t)" and "rawText (content (last log)) = text_folded (snd (last t))"
proof -
  from assms have t: "t \<noteq> []" by (simp add: agrees_empty)
  from assms(1) have
    "last (map (\<lambda>e. (role e, rawText (content e))) log) =
     last (map (\<lambda>(r, ps). (r, text_folded ps)) t)"
    by (simp add: agrees_def)
  then have "(role (last log), rawText (content (last log))) =
             (\<lambda>(r, ps). (r, text_folded ps)) (last t)"
    using assms(2) t by (simp add: last_map)
  then show "role (last log) = fst (last t)"
    and "rawText (content (last log)) = text_folded (snd (last t))"
    by (simp_all add: case_prod_beta)
qed

lemma agrees_butlast: "agrees log t \<Longrightarrow> agrees (butlast log) (butlast t)"
  unfolding agrees_def by (metis map_butlast)

lemma agrees_snoc:
  "agrees log t \<Longrightarrow> role e = r \<Longrightarrow> rawText (content e) = text_folded ps \<Longrightarrow>
   agrees (log @ [e]) (t @ [(r, ps)])"
  by (simp add: agrees_def)

lemma run_fidelity:
  assumes "list_all (\<lambda>c. well_formed_message (message_of_call c)) cs" and "agrees log t"
  shows "snd (run marked stringify cs log) = [] \<and>
         agrees (fst (run marked stringify cs log)) (folded cs t)"
  using assms
proof (induction cs arbitrary: log t)
  case Nil
  then show ?case by simp
next
  case (Cons c cs)
  then have wf: "well_formed_message (message_of_call c)"
    and rest: "list_all (\<lambda>c. well_formed_message (message_of_call c)) cs" by simp_all
  show ?case
  proof (cases c)
    case (Append m)
    with wf have wfm: "well_formed_message m" by simp
    let ?e = "\<lparr>role = role_of m,
               content = rendered marked stringify (text_folded (parts_of m))
                  (filter (\<lambda>p. js_get p ''type'' \<noteq> Some (JStr ''text'')) (parts_of m))\<rparr>"
    have step: "appendMessage marked stringify m log = (log @ [?e], None)"
      using wfm by (rule appendMessage_well_formed)
    have "agrees (log @ [?e]) (t @ [(role_of m, parts_of m)])"
      using Cons.prems(2) by (rule agrees_snoc) simp_all
    from Cons.IH [OF rest this] show ?thesis
      by (simp add: Append step split: prod.splits)
  next
    case (AddOrUpdate m)
    with wf have wfm: "well_formed_message m" by simp
    show ?thesis
    proof (cases "log = [] \<or> role (last log) \<noteq> role_of m \<or> role_of m = ''user''")
      case True
      let ?e = "\<lparr>role = role_of m,
               content = rendered marked stringify (text_folded (parts_of m))
                  (filter (\<lambda>p. js_get p ''type'' \<noteq> Some (JStr ''text'')) (parts_of m))\<rparr>"
      have step: "addOrUpdateMessage marked stringify m log = (log @ [?e], None)"
        using addOrUpdateMessage_new [OF wfm True] appendMessage_well_formed [OF wfm] by simp
      have g: "t = [] \<or> fst (last t) \<noteq> role_of m \<or> role_of m = ''user''"
        using True agrees_empty [OF Cons.prems(2)] agrees_last(1) [OF Cons.prems(2)] by auto
      have "agrees (log @ [?e]) (t @ [(role_of m, parts_of m)])"
        using Cons.prems(2) by (rule agrees_snoc) simp_all
      from Cons.IH [OF rest this] show ?thesis
        using g by (simp add: AddOrUpdate step split: prod.splits)
    next
      case False
      then have ne: "log \<noteq> []" and same: "role (last log) = role_of m"
        and nu: "role_of m \<noteq> ''user''" by simp_all
      let ?c = "rendered marked stringify
                   (rawText (content (last log)) @ text_folded (parts_of m))
                   (map (\<lambda>_. placeholder)
                      (filter renders_accordion (otherParts (content (last log)))) @
                    filter (\<lambda>p. js_get p ''type'' \<noteq> Some (JStr ''text'')) (parts_of m))"
      let ?e = "(last log)\<lparr>content := ?c\<rparr>"
      have step: "addOrUpdateMessage marked stringify m log = (butlast log @ [?e], None)"
        using wfm ne same nu by (rule addOrUpdateMessage_extend)
      have tne: "t \<noteq> []" using ne agrees_empty [OF Cons.prems(2)] by simp
      have g: "\<not> (t = [] \<or> fst (last t) \<noteq> role_of m \<or> role_of m = ''user'')"
        using tne same nu agrees_last(1) [OF Cons.prems(2) ne] by simp
      have "agrees (butlast log @ [?e]) (butlast t @ [(fst (last t), snd (last t) @ parts_of m)])"
        using agrees_butlast [OF Cons.prems(2)]
      proof (rule agrees_snoc)
        show "role ?e = fst (last t)" using agrees_last(1) [OF Cons.prems(2) ne] by simp
        show "rawText (content ?e) = text_folded (snd (last t) @ parts_of m)"
          using agrees_last(2) [OF Cons.prems(2) ne] by (simp add: text_folded_append)
      qed
      from Cons.IH [OF rest this] show ?thesis
        using g by (simp add: AddOrUpdate step split: prod.splits)
    qed
  qed
qed

section \<open>The listeners of the event stream\<close>

lemma errorMessage_well_formed: "well_formed_message errorMessage"
  by (simp add: errorMessage_def Message_def TextPart_def well_formed_message_def
      well_formed_part_def is_string_def is_array_def role_of_def parts_of_def valid_token_def)

lemma array_filter_no_parts:
  "\<not> has_parts_array v \<Longrightarrow> array_filter P (js_get v ''parts'') = Inl TypeError"
  by (auto simp: has_parts_array_def array_filter_def split: option.splits json.splits)

lemma appendMessage_rejects:
  assumes "\<not> has_parts_array v"
  shows "\<exists>e. appendMessage marked stringify v log = (log, Some e)"
  using array_filter_no_parts [OF assms]
  by (simp add: appendMessage_def renderMessageContent_def)

lemma addOrUpdateMessage_rejects:
  assumes "\<not> has_parts_array v"
  shows "\<exists>e. addOrUpdateMessage marked stringify v log = (log, Some e)"
  using array_filter_no_parts [OF assms] appendMessage_rejects [OF assms]
  by (simp add: addOrUpdateMessage_def getTextFromParts_def)

lemma on_message_console_irrelevant:
  "chatLog (on_message marked stringify parse data (st\<lparr>console := c\<rparr>)) =
   chatLog (on_message marked stringify parse data st)"
  by (simp add: on_message_def split: option.splits prod.splits)

text \<open>
  C8 (malformed chunk tolerance), for data that is not empty.  A message event whose data is
  not empty and fails to parse as a Message, because \<^verbatim>\<open>JSON.parse\<close> throws or because
  the parsed value carries no parts array (or one that holds a null), is logged and ignored:
  the page is as before but for one more line on the console, so the chat log has no new
  entry and none is extended, the stream is not closed and the input stays as it was; and
  whatever event comes next leaves the chat log it would have left without the malformed
  one.
\<close>

theorem malformed_chunk_ignored:
  assumes "d \<noteq> []" and "\<not> parses_as_message parse d"
  shows "on_message marked stringify parse (Some d) st =
           st\<lparr>console := console st @ [Failed_to_parse d]\<rparr> \<and>
         chatLog (on_message marked stringify parse (Some d) st) = chatLog st \<and>
         sse_closed (on_message marked stringify parse (Some d) st) = sse_closed st \<and>
         chatInput_disabled (on_message marked stringify parse (Some d) st) =
           chatInput_disabled st \<and>
         sendButton_disabled (on_message marked stringify parse (Some d) st) =
           sendButton_disabled st \<and>
         chatLog (on_message marked stringify parse next_data
                    (on_message marked stringify parse (Some d) st)) =
         chatLog (on_message marked stringify parse next_data st)"
proof -
  have first: "on_message marked stringify parse (Some d) st =
           st\<lparr>console := console st @ [Failed_to_parse d]\<rparr>"
  proof (cases "parse d")
    case None
    with assms(1) show ?thesis by (simp add: on_message_def)
  next
    case (Some v)
    with assms(2) have "\<not> has_parts_array v" by (simp add: parses_as_message_def)
    then obtain e where "addOrUpdateMessage marked stringify v (chatLog st) = (chatLog st, Some e)"
      using addOrUpdateMessage_rejects by blast
    with Some assms(1) show ?thesis by (simp add: on_message_def)
  qed
  then show ?thesis by (simp add: on_message_console_irrelevant)
qed

theorem malformed_chunk_ignored_witness:
  "''{oops'' \<noteq> [] \<and> \<not> parses_as_message sample_parse ''{oops'' \<and>
   on_message (\<lambda>s. s) (\<lambda>j. []) sample_parse (Some ''{oops'') streaming_page =
     streaming_page\<lparr>console := [Failed_to_parse ''{oops'']\<rparr> \<and>
   chatLog (on_message (\<lambda>s. s) (\<lambda>j. []) sample_parse (Some ''<chunk_text2>'')
              (on_message (\<lambda>s. s) (\<lambda>j. []) sample_parse (Some ''{oops'') streaming_page)) =
     chatLog (on_message (\<lambda>s. s) (\<lambda>j. []) sample_parse (Some ''<chunk_text2>'')
                streaming_page)"
proof -
  have a: "''{oops'' \<noteq> []" by simp
  have b: "\<not> parses_as_message sample_parse ''{oops''"
    by (simp add: parses_as_message_def sample_parse_def)
  have c: "console streaming_page = []" by (simp add: streaming_page_def)
  note t = malformed_chunk_ignored [OF a b, of "\<lambda>s. s" "\<lambda>j. []" streaming_page
      "Some ''<chunk_text2>''", unfolded c append_Nil]
  from a b t show ?thesis by blast
qed

text \<open>
  C8 as it was stated, for every event whose data does not parse, fails at the empty string:
  it is no Message, and the guard \<^verbatim>\<open>if (e.data)\<close> drops the event before the try
  block, so no failure is logged.
\<close>

theorem empty_data_not_logged:
  "\<not> parses_as_message sample_parse [] \<and>
   on_message (\<lambda>s. s) (\<lambda>j. []) sample_parse (Some []) streaming_page \<noteq>
     streaming_page\<lparr>console := console streaming_page @ [Failed_to_parse []]\<rparr> \<and>
   console (on_message (\<lambda>s. s) (\<lambda>j. []) sample_parse (Some []) streaming_page) = []"
  by (simp add: parses_as_message_def sample_parse_def on_message_def streaming_page_def)

text \<open>
  A chunk that does carry a parts array is merged, and one case of it is logged as a parse
  failure all the same: a function call without arguments makes \<open>htmlEncode\<close> throw
  inside the extend branch, after the raw text of the entry has been written.
\<close>

lemma payload_less_call_writes_rawText:
  "addOrUpdateMessage marked stringify
     (Message ''model'' [TextPart ''x'', JObj [(''type'', JStr ''function_call''), (''name'', JStr ''f'')]])
     [\<lparr>role = ''model'', content = rendered marked stringify ''a'' []\<rparr>] =
   ([\<lparr>role = ''model'', content = (rendered marked stringify ''a'' [])\<lparr>rawText := ''ax''\<rparr>\<rparr>],
    Some TypeError)"
  by (simp add: addOrUpdateMessage_def Message_def TextPart_def getTextFromParts_def
        array_filter_def js_join_def rendered_def renderMessageContent_def renderPart_def
        htmlEncode_def JSON_stringify_def Let_def)

text \<open>
  C9 (empty data).  A message event without data, or with the empty string as data, leaves
  the page exactly as it was: nothing is parsed, nothing is logged, no entry is touched.
  Data that is not empty goes to \<^verbatim>\<open>JSON.parse\<close> and from there to the merge or to
  the console.
\<close>

theorem empty_data_discarded:
  "on_message marked stringify parse None st = st \<and>
   on_message marked stringify parse (Some []) st = st \<and>
   on_message marked stringify parse (Some (c # cs)) st =
     (case parse (c # cs) of
        None \<Rightarrow> st\<lparr>console := console st @ [Failed_to_parse (c # cs)]\<rparr>
      | Some message \<Rightarrow>
          (case addOrUpdateMessage marked stringify message (chatLog st) of
             (log, None) \<Rightarrow> st\<lparr>chatLog := log\<rparr>
           | (log, Some e) \<Rightarrow>
               st\<lparr>chatLog := log, console := console st @ [Failed_to_parse (c # cs)]\<rparr>))"
  by (simp add: on_message_def)

text \<open>
  C10 (a stream error is its own entry).  The error listener puts its system message at the
  end of the chat log as a new bubble, whatever the log holds: every entry that was there
  is still there unchanged, the last one too when its role is system, and the log is one
  entry longer.
\<close>

theorem stream_error_appends_new_entry:
  "chatLog (on_error marked stringify st) =
     chatLog st @
       [\<lparr>role = ''system'',
         content = \<lparr>rawText = ''Connection error. Please try again.'',
                    innerHTML = marked ''Connection error. Please try again.'',
                    otherParts = []\<rparr>\<rparr>] \<and>
   length (chatLog (on_error marked stringify st)) = Suc (length (chatLog st))"
proof -
  have "appendMessage marked stringify errorMessage (chatLog st) =
          (chatLog st @
             [\<lparr>role = role_of errorMessage,
               content = rendered marked stringify (text_folded (parts_of errorMessage))
                 (filter (\<lambda>p. js_get p ''type'' \<noteq> Some (JStr ''text'')) (parts_of errorMessage))\<rparr>],
           None)"
    using errorMessage_well_formed by (rule appendMessage_well_formed)
  then show ?thesis
    by (simp add: on_error_def)
       (simp add: errorMessage_def Message_def TextPart_def role_of_def parts_of_def
          text_folded_def isText_def textOf_def rendered_def)
qed

section \<open>The merge of the history\<close>

lemma js_get_with_parts:
  "js_get (with_parts m xs) k =
     (if k = ''parts'' \<and> js_get m ''parts'' \<noteq> None then Some (JArr xs) else js_get m k)"
proof (cases m)
  case (JObj kvs)
  have "map_of (map (\<lambda>(k, v). if k = ''parts'' then (k, JArr xs) else (k, v)) kvs) k =
        (if k = ''parts'' \<and> map_of kvs ''parts'' \<noteq> None then Some (JArr xs) else map_of kvs k)"
    by (induction kvs) auto
  with JObj show ?thesis by (simp add: with_parts_def)
qed (simp_all add: with_parts_def)

lemma with_parts_twice: "with_parts (with_parts m xs) ys = with_parts m ys"
proof (cases m)
  case (JObj kvs)
  have "map (\<lambda>(k, v). if k = ''parts'' then (k, JArr ys) else (k, v))
          (map (\<lambda>(k, v). if k = ''parts'' then (k, JArr xs) else (k, v)) kvs) =
        map (\<lambda>(k, v). if k = ''parts'' then (k, JArr ys) else (k, v)) kvs"
    by (induction kvs) auto
  with JObj show ?thesis by (simp add: with_parts_def)
qed (simp_all add: with_parts_def)

lemma role_of_with_parts [simp]: "role_of (with_parts m xs) = role_of m"
  by (simp add: role_of_def js_get_with_parts)

lemma parts_of_with_parts:
  "is_array (js_get m ''parts'') \<Longrightarrow> parts_of (with_parts m xs) = xs"
  by (auto simp: parts_of_def js_get_with_parts is_array_iff)

lemma well_formed_with_parts:
  "well_formed_message m \<Longrightarrow> list_all well_formed_part xs \<Longrightarrow>
   well_formed_message (with_parts m xs)"
  by (auto simp: well_formed_message_def js_get_with_parts is_array_iff is_string_iff
        role_of_def parts_of_def)

lemma well_formed_message_parts:
  "well_formed_message m \<Longrightarrow> is_array (js_get m ''parts'')"
  "well_formed_message m \<Longrightarrow> list_all well_formed_part (parts_of m)"
  by (simp_all add: well_formed_message_def)

lemma message_shaped_Message: "message_shaped (Message r xs)"
  by (simp add: message_shaped_def Message_def is_string_def is_array_def)

lemma message_shaped_with_parts: "message_shaped m \<Longrightarrow> message_shaped (with_parts m xs)"
  by (auto simp: message_shaped_def js_get_with_parts is_string_iff is_array_iff)

lemma merge_reducer_shaped:
  assumes acc: "list_all message_shaped acc" and m: "message_shaped m"
  shows "merge_reducer acc m = Inr (merge_step acc m)"
proof (cases "acc = []")
  case True
  then show ?thesis by (simp add: merge_reducer_def merge_step_def)
next
  case False
  with acc have wl: "message_shaped (last acc)" by (simp add: list_all_iff)
  from wl obtain rl pl where rl: "js_get (last acc) ''role'' = Some (JStr rl)"
    and pl: "js_get (last acc) ''parts'' = Some (JArr pl)"
    by (auto simp: message_shaped_def is_string_iff is_array_iff)
  from m obtain r ps where r: "js_get m ''role'' = Some (JStr r)"
    and ps: "js_get m ''parts'' = Some (JArr ps)"
    by (auto simp: message_shaped_def is_string_iff is_array_iff)
  have tr: "truthy (Some (last acc))" using rl by (cases "last acc") simp_all
  have nn: "m \<noteq> JNull" using r by auto
  show ?thesis
    using False tr nn
    by (auto simp: merge_reducer_def merge_step_def rl pl r ps role_of_def parts_of_def
          js_spread_def Let_def)
qed

lemma merge_step_shaped:
  assumes "list_all message_shaped acc" and "message_shaped m"
  shows "list_all message_shaped (merge_step acc m)"
proof (cases "acc \<noteq> [] \<and> role_of (last acc) = role_of m \<and> role_of m \<noteq> ''user''")
  case True
  then have ne: "acc \<noteq> []" by simp
  with assms(1) have "message_shaped (last acc)" by (simp add: list_all_iff)
  then have "message_shaped (with_parts (last acc) (parts_of (last acc) @ parts_of m))"
    by (rule message_shaped_with_parts)
  moreover have "list_all message_shaped (butlast acc)"
    using assms(1) by (auto simp: list_all_iff dest: in_set_butlastD)
  ultimately show ?thesis using True by (simp add: merge_step_def)
next
  case False
  with assms show ?thesis by (auto simp: merge_step_def)
qed

lemma reduce_shaped:
  assumes "list_all message_shaped ms" and "list_all message_shaped acc"
  shows "reduce merge_reducer ms acc = Inr (foldl merge_step acc ms)"
  using assms
proof (induction ms arbitrary: acc)
  case Nil
  then show ?case by simp
next
  case (Cons m ms)
  then have m: "message_shaped m" and ms: "list_all message_shaped ms" by simp_all
  have "list_all message_shaped (merge_step acc m)"
    using Cons.prems(2) m by (rule merge_step_shaped)
  from Cons.IH [OF ms this] show ?case
    by (simp add: merge_reducer_shaped [OF Cons.prems(2) m])
qed

lemma merge_reducer_well_formed:
  assumes acc: "list_all well_formed_message acc" and m: "well_formed_message m"
  shows "merge_reducer acc m = Inr (merge_step acc m)"
proof (cases "acc = []")
  case True
  then show ?thesis by (simp add: merge_reducer_def merge_step_def)
next
  case False
  with acc have wl: "well_formed_message (last acc)" by (simp add: list_all_iff)
  from wl obtain rl pl where rl: "js_get (last acc) ''role'' = Some (JStr rl)"
    and pl: "js_get (last acc) ''parts'' = Some (JArr pl)" by (rule well_formed_message_cases)
  from m obtain r ps where r: "js_get m ''role'' = Some (JStr r)"
    and ps: "js_get m ''parts'' = Some (JArr ps)" by (rule well_formed_message_cases)
  have tr: "truthy (Some (last acc))" using rl by (cases "last acc") simp_all
  have nn: "m \<noteq> JNull" using r by auto
  show ?thesis
    using False tr nn
    by (auto simp: merge_reducer_def merge_step_def rl pl r ps role_of_def parts_of_def
          js_spread_def Let_def)
qed

lemma merge_step_well_formed:
  assumes "list_all well_formed_message acc" and "well_formed_message m"
  shows "list_all well_formed_message (merge_step acc m)"
proof (cases "acc \<noteq> [] \<and> role_of (last acc) = role_of m \<and> role_of m \<noteq> ''user''")
  case True
  then have ne: "acc \<noteq> []" by simp
  with assms(1) have wl: "well_formed_message (last acc)" by (simp add: list_all_iff)
  have "well_formed_message (with_parts (last acc) (parts_of (last acc) @ parts_of m))"
    using wl well_formed_message_parts(2) [OF wl] well_formed_message_parts(2) [OF assms(2)]
    by (intro well_formed_with_parts) simp_all
  moreover have "list_all well_formed_message (butlast acc)"
    using assms(1) by (auto simp: list_all_iff dest: in_set_butlastD)
  ultimately show ?thesis using True by (simp add: merge_step_def)
next
  case False
  with assms show ?thesis by (auto simp: merge_step_def)
qed

lemma reduce_well_formed:
  assumes "list_all well_formed_message ms" and "list_all well_formed_message acc"
  shows "reduce merge_reducer ms acc = Inr (foldl merge_step acc ms) \<and>
         list_all well_formed_message (foldl merge_step acc ms)"
  using assms
proof (induction ms arbitrary: acc)
  case Nil
  then show ?case by simp
next
  case (Cons m ms)
  then have m: "well_formed_message m" and ms: "list_all well_formed_message ms" by simp_all
  have "list_all well_formed_message (merge_step acc m)"
    using Cons.prems(2) m by (rule merge_step_well_formed)
  from Cons.IH [OF ms this] show ?case
    by (simp add: merge_reducer_well_formed [OF Cons.prems(2) m])
qed

lemma mergedHistory_well_formed:
  assumes "list_all well_formed_message ms"
  shows "mergedHistory (JArr ms) = Inr (foldl merge_step [] ms)"
    and "list_all well_formed_message (foldl merge_step [] ms)"
  using reduce_well_formed [OF assms, of "[]"] by (simp_all add: mergedHistory_def)

lemma merge_step_nonempty: "merge_step acc m \<noteq> []"
  by (simp add: merge_step_def)

lemma merge_step_last_role: "role_of (last (merge_step acc m)) = role_of m"
  by (simp add: merge_step_def)

lemma merge_step_prefix:
  "acc \<noteq> [] \<Longrightarrow> merge_step (pre @ acc) m = pre @ merge_step acc m"
  by (simp add: merge_step_def butlast_append)

lemma foldl_merge_step_nonempty: "acc \<noteq> [] \<Longrightarrow> foldl merge_step acc ms \<noteq> []"
  by (induction ms arbitrary: acc) (simp_all add: merge_step_nonempty)

lemma foldl_merge_step_prefix:
  "acc \<noteq> [] \<Longrightarrow> foldl merge_step (pre @ acc) ms = pre @ foldl merge_step acc ms"
  by (induction ms arbitrary: acc) (simp_all add: merge_step_prefix merge_step_nonempty)

lemma foldl_merge_step_last_role:
  "foldl merge_step acc (ms @ [m]) \<noteq> [] \<and> role_of (last (foldl merge_step acc (ms @ [m]))) = role_of m"
  by (simp add: merge_step_nonempty merge_step_last_role)

lemma merge_step_pair:
  assumes a: "well_formed_message a" and acc: "list_all well_formed_message acc"
    and same: "role_of a = role_of b" and nu: "role_of b \<noteq> ''user''"
  shows "merge_step (merge_step acc a) b =
         merge_step acc (with_parts a (parts_of a @ parts_of b))"
proof (cases "acc \<noteq> [] \<and> role_of (last acc) = role_of a \<and> role_of a \<noteq> ''user''")
  case True
  then have "well_formed_message (last acc)" using acc by (simp add: list_all_iff)
  then have arr: "is_array (js_get (last acc) ''parts'')" by (rule well_formed_message_parts(1))
  have arr_a: "is_array (js_get a ''parts'')" using a by (rule well_formed_message_parts(1))
  show ?thesis
    using True same nu
    by (simp add: merge_step_def with_parts_twice parts_of_with_parts [OF arr]
          parts_of_with_parts [OF arr_a])
next
  case False
  then show ?thesis
    using same nu by (auto simp: merge_step_def)
qed

lemma merge_step_apart:
  assumes "\<not> (role_of a = role_of b \<and> role_of b \<noteq> ''user'')"
  shows "merge_step (merge_step acc a) b = merge_step acc a @ [b]"
  using assms by (auto simp: merge_step_def [of "merge_step acc a" b] merge_step_last_role)

lemmas shapes = Message_def TextPart_def FunctionCall_def FunctionResponse_def
  well_formed_message_def well_formed_part_def is_string_def is_array_def role_of_def
  parts_of_def valid_token_def

lemma sample_history_well_formed: "list_all well_formed_message sample_history"
  by (simp add: sample_history_def shapes)

lemma sample_calls_well_formed:
  "list_all (\<lambda>c. well_formed_message (message_of_call c)) sample_calls"
  by (simp add: sample_calls_def chunk_text1_def chunk_call_def chunk_text2_def errorMessage_def
        shapes)

lemma forEach_appendMessage_well_formed:
  "list_all well_formed_message ms \<Longrightarrow>
   forEach_appendMessage marked stringify ms log = (log @ map (bubble marked stringify) ms, None)"
proof (induction ms arbitrary: log)
  case Nil
  then show ?case by simp
next
  case (Cons m ms)
  then have m: "well_formed_message m" and ms: "list_all well_formed_message ms" by simp_all
  show ?case
    by (simp add: appendMessage_well_formed [OF m] Cons.IH [OF ms] bubble_def)
qed

lemma loadHistory_well_formed:
  assumes "list_all well_formed_message ms"
  shows "loadHistory marked stringify message_of (Body (JArr ms)) log0 =
           map (bubble marked stringify) (foldl merge_step [] ms)"
  using forEach_appendMessage_well_formed [OF mergedHistory_well_formed(2) [OF assms], of marked stringify "[]"]
  by (simp add: loadHistory_def mergedHistory_well_formed(1) [OF assms])

text \<open>
  C5 (role adjacency in the history merge).  In a history of well-formed Messages take two
  consecutive ones, \<open>a\<close> then \<open>b\<close>, anywhere.  If they have the same role and it is not
  user, they are folded into one entry: the merge, and the chat log \<open>loadHistory\<close> builds
  from it, are those of the history in which the one Message with the Parts of \<open>a\<close>
  followed by those of \<open>b\<close> stands in their place; a history of just the two gives that
  one entry.  If one of them is a user Message or their roles differ, they stay two entries
  in the order of the input: the merge is the merge of the history up to \<open>a\<close> followed by
  the merge of the history from \<open>b\<close> on, and so is the chat log; a history of just the two
  gives the two unchanged.
\<close>

theorem role_adjacency_rule:
  assumes wf: "list_all well_formed_message (pre @ a # b # post)"
  shows "(role_of a = role_of b \<and> role_of b \<noteq> ''user'' \<longrightarrow>
            mergedHistory (JArr [a, b]) = Inr [with_parts a (parts_of a @ parts_of b)] \<and>
            (\<exists>es. mergedHistory (JArr (pre @ a # b # post)) = Inr es \<and>
                  mergedHistory (JArr (pre @ with_parts a (parts_of a @ parts_of b) # post)) =
                    Inr es) \<and>
            loadHistory marked stringify message_of (Body (JArr (pre @ a # b # post))) log0 =
              loadHistory marked stringify message_of
                (Body (JArr (pre @ with_parts a (parts_of a @ parts_of b) # post))) log0) \<and>
         (\<not> (role_of a = role_of b \<and> role_of b \<noteq> ''user'') \<longrightarrow>
            mergedHistory (JArr [a, b]) = Inr [a, b] \<and>
            (\<exists>es1 es2. mergedHistory (JArr (pre @ [a])) = Inr es1 \<and>
                  mergedHistory (JArr (b # post)) = Inr es2 \<and>
                  mergedHistory (JArr (pre @ a # b # post)) = Inr (es1 @ es2)) \<and>
            loadHistory marked stringify message_of (Body (JArr (pre @ a # b # post))) log0 =
              loadHistory marked stringify message_of (Body (JArr (pre @ [a]))) log0 @
              loadHistory marked stringify message_of (Body (JArr (b # post))) log0)"
proof -
  from wf have pre: "list_all well_formed_message pre" and a: "well_formed_message a"
    and b: "well_formed_message b" and post: "list_all well_formed_message post"
    by simp_all
  have ab: "list_all well_formed_message [a, b]" using a b by simp
  have pa: "list_all well_formed_message (pre @ [a])" using pre a by simp
  have bp: "list_all well_formed_message (b # post)" using b post by simp
  have acc: "list_all well_formed_message (foldl merge_step [] pre)"
    using pre by (rule mergedHistory_well_formed(2))
  let ?ab = "with_parts a (parts_of a @ parts_of b)"
  have wab: "well_formed_message ?ab"
    using a well_formed_message_parts(2) [OF a] well_formed_message_parts(2) [OF b]
    by (intro well_formed_with_parts) simp_all
  have pabp: "list_all well_formed_message (pre @ ?ab # post)" using pre wab post by simp
  show ?thesis
  proof (intro conjI impI)
    assume m: "role_of a = role_of b \<and> role_of b \<noteq> ''user''"
    show "mergedHistory (JArr [a, b]) = Inr [with_parts a (parts_of a @ parts_of b)]"
      using m by (simp add: mergedHistory_well_formed(1) [OF ab] merge_step_def)
    have same: "foldl merge_step [] (pre @ a # b # post) = foldl merge_step [] (pre @ ?ab # post)"
      using merge_step_pair [OF a acc] m by simp
    then show "\<exists>es. mergedHistory (JArr (pre @ a # b # post)) = Inr es \<and>
                  mergedHistory (JArr (pre @ ?ab # post)) = Inr es"
      by (simp add: mergedHistory_well_formed(1) [OF wf] mergedHistory_well_formed(1) [OF pabp])
    show "loadHistory marked stringify message_of (Body (JArr (pre @ a # b # post))) log0 =
          loadHistory marked stringify message_of (Body (JArr (pre @ ?ab # post))) log0"
      by (simp only: loadHistory_well_formed [OF wf] loadHistory_well_formed [OF pabp] same)
  next
    assume n: "\<not> (role_of a = role_of b \<and> role_of b \<noteq> ''user'')"
    show "mergedHistory (JArr [a, b]) = Inr [a, b]"
      using n by (auto simp: mergedHistory_well_formed(1) [OF ab] merge_step_def)
    have "foldl merge_step [] (pre @ a # b # post) =
          foldl merge_step (merge_step (foldl merge_step [] pre) a @ [b]) post"
      using merge_step_apart [OF n] by simp
    also have "\<dots> = merge_step (foldl merge_step [] pre) a @ foldl merge_step [b] post"
      by (rule foldl_merge_step_prefix) simp
    also have "\<dots> = foldl merge_step [] (pre @ [a]) @ foldl merge_step [] (b # post)"
      by (simp add: merge_step_def [of "[]" b])
    finally have apart:
      "foldl merge_step [] (pre @ a # b # post) =
       foldl merge_step [] (pre @ [a]) @ foldl merge_step [] (b # post)" .
    then show "\<exists>es1 es2. mergedHistory (JArr (pre @ [a])) = Inr es1 \<and>
                  mergedHistory (JArr (b # post)) = Inr es2 \<and>
                  mergedHistory (JArr (pre @ a # b # post)) = Inr (es1 @ es2)"
      by (simp add: mergedHistory_well_formed(1) [OF wf] mergedHistory_well_formed(1) [OF pa]
            mergedHistory_well_formed(1) [OF bp])
    show "loadHistory marked stringify message_of (Body (JArr (pre @ a # b # post))) log0 =
          loadHistory marked stringify message_of (Body (JArr (pre @ [a]))) log0 @
          loadHistory marked stringify message_of (Body (JArr (b # post))) log0"
      by (simp only: loadHistory_well_formed [OF wf] loadHistory_well_formed [OF pa]
            loadHistory_well_formed [OF bp] apart map_append)
  qed
qed

theorem role_adjacency_rule_witness:
  "list_all well_formed_message sample_history \<and>
   mergedHistory (JArr [Message ''model'' [TextPart ''Hel''], Message ''model'' [TextPart ''lo!'']]) =
     Inr [Message ''model'' [TextPart ''Hel'', TextPart ''lo!'']] \<and>
   mergedHistory (JArr [Message ''user'' [TextPart ''hi''], Message ''model'' [TextPart ''Hel'']]) =
     Inr [Message ''user'' [TextPart ''hi''], Message ''model'' [TextPart ''Hel'']] \<and>
   mergedHistory (JArr sample_history) =
     Inr [Message ''user'' [TextPart ''hi''],
          Message ''model'' [TextPart ''Hel'', TextPart ''lo!'']]"
proof -
  have wf: "list_all well_formed_message sample_history"
    by (rule sample_history_well_formed)
  have wf1: "list_all well_formed_message
     ([Message ''user'' [TextPart ''hi'']] @
       Message ''model'' [TextPart ''Hel''] # Message ''model'' [TextPart ''lo!''] # [])"
    using wf by (simp add: sample_history_def)
  have wf2: "list_all well_formed_message
     ([] @ Message ''user'' [TextPart ''hi''] # Message ''model'' [TextPart ''Hel''] #
       [Message ''model'' [TextPart ''lo!'']])"
    using wf by (simp add: sample_history_def)
  have joined: "with_parts (Message ''model'' [TextPart ''Hel''])
          (parts_of (Message ''model'' [TextPart ''Hel'']) @
           parts_of (Message ''model'' [TextPart ''lo!''])) =
        Message ''model'' [TextPart ''Hel'', TextPart ''lo!'']"
    by (simp add: with_parts_def Message_def parts_of_def)
  have single: "mergedHistory
          (JArr [Message ''user'' [TextPart ''hi''],
                 Message ''model'' [TextPart ''Hel'', TextPart ''lo!'']]) =
        Inr [Message ''user'' [TextPart ''hi''],
             Message ''model'' [TextPart ''Hel'', TextPart ''lo!'']]"
    by (simp add: mergedHistory_def merge_reducer_def Message_def)
  have roles: "role_of (Message ''model'' [TextPart ''Hel'']) = ''model''"
    "role_of (Message ''model'' [TextPart ''lo!'']) = ''model''"
    "role_of (Message ''user'' [TextPart ''hi'']) = ''user''"
    by (simp_all add: role_of_def Message_def)
  from role_adjacency_rule [OF wf1] role_adjacency_rule [OF wf2] wf
  show ?thesis
    by (simp add: roles joined single sample_history_def)
qed

section \<open>Raw text fidelity over the whole life of the log\<close>

lemma folded_append: "folded (xs @ ys) t = folded ys (folded xs t)"
proof (induction xs arbitrary: t)
  case Nil
  show ?case by simp
next
  case (Cons c cs)
  show ?case by (cases c) (simp_all add: Cons.IH)
qed

lemma merge_step_folded:
  assumes "list_all well_formed_message acc"
  shows "map (\<lambda>m. (role_of m, parts_of m)) (merge_step acc m) =
         folded [AddOrUpdate m] (map (\<lambda>m. (role_of m, parts_of m)) acc)"
proof (cases "acc = []")
  case True
  then show ?thesis by (simp add: merge_step_def)
next
  case False
  with assms have "well_formed_message (last acc)" by (simp add: list_all_iff)
  then have arr: "is_array (js_get (last acc) ''parts'')" by (rule well_formed_message_parts(1))
  show ?thesis
    using False
    by (simp add: merge_step_def last_map map_butlast parts_of_with_parts [OF arr])
qed

lemma foldl_merge_step_folded:
  assumes "list_all well_formed_message ms" and "list_all well_formed_message acc"
  shows "map (\<lambda>m. (role_of m, parts_of m)) (foldl merge_step acc ms) =
         folded (map AddOrUpdate ms) (map (\<lambda>m. (role_of m, parts_of m)) acc)"
  using assms
proof (induction ms arbitrary: acc)
  case Nil
  show ?case by simp
next
  case (Cons m ms)
  then have m: "well_formed_message m" and ms: "list_all well_formed_message ms" by simp_all
  have step: "list_all well_formed_message (merge_step acc m)"
    using Cons.prems(2) m by (rule merge_step_well_formed)
  have "folded (map AddOrUpdate (m # ms)) (map (\<lambda>m. (role_of m, parts_of m)) acc) =
        folded (map AddOrUpdate ms) (folded [AddOrUpdate m] (map (\<lambda>m. (role_of m, parts_of m)) acc))"
    using folded_append [of "[AddOrUpdate m]" "map AddOrUpdate ms"] by simp
  then show ?case
    using Cons.IH [OF ms step] by (simp add: merge_step_folded [OF Cons.prems(2)])
qed

lemma agrees_bubbles:
  "agrees (map (bubble marked stringify) ms) (map (\<lambda>m. (role_of m, parts_of m)) ms)"
  by (simp add: agrees_def bubble_def)

text \<open>
  C6 (raw text fidelity).  Load a history of well-formed Messages, then make any calls of
  \<open>addOrUpdateMessage\<close> and \<open>appendMessage\<close> with well-formed Messages.  Nothing throws,
  and at the end (so after every call, the list of calls being any) each entry of the chat
  log has the role and, as \<^verbatim>\<open>dataset.rawText\<close>, exactly the concatenation in order of
  the texts of the text Parts folded into it since it was created; Parts of any other type
  add no character.
\<close>

theorem raw_text_fidelity:
  assumes "list_all well_formed_message history"
    and "list_all (\<lambda>c. well_formed_message (message_of_call c)) calls"
  shows "snd (run marked stringify calls
                (loadHistory marked stringify message_of (Body (JArr history)) log0)) = [] \<and>
         map (\<lambda>e. (role e, rawText (content e)))
           (fst (run marked stringify calls
                   (loadHistory marked stringify message_of (Body (JArr history)) log0))) =
         map (\<lambda>(r, ps). (r, text_folded ps)) (folded (map AddOrUpdate history @ calls) [])"
proof -
  have "agrees (loadHistory marked stringify message_of (Body (JArr history)) log0)
          (folded (map AddOrUpdate history) [])"
    using agrees_bubbles [of marked stringify "foldl merge_step [] history"]
      foldl_merge_step_folded [OF assms(1), of "[]"]
    by (simp add: loadHistory_well_formed [OF assms(1)])
  from run_fidelity [OF assms(2) this, of marked stringify]
  show ?thesis by (simp add: folded_append agrees_def)
qed

theorem raw_text_fidelity_witness:
  "list_all well_formed_message sample_history \<and>
   list_all (\<lambda>c. well_formed_message (message_of_call c)) sample_calls \<and>
   snd (run (\<lambda>s. s) (\<lambda>j. []) sample_calls
          (loadHistory (\<lambda>s. s) (\<lambda>j. []) (\<lambda>e. []) (Body (JArr sample_history)) [])) = [] \<and>
   map (\<lambda>e. (role e, rawText (content e)))
     (fst (run (\<lambda>s. s) (\<lambda>j. []) sample_calls
             (loadHistory (\<lambda>s. s) (\<lambda>j. []) (\<lambda>e. []) (Body (JArr sample_history)) []))) =
     [(''user'', ''hi''), (''model'', ''Hello!''), (''user'', ''2 * 21?''),
      (''model'', ''The answer is 42''), (''system'', ''Connection error. Please try again.'')]"
proof -
  have f: "map (\<lambda>(r, ps). (r, text_folded ps))
             (folded (map AddOrUpdate sample_history @ sample_calls) []) =
           [(''user'', ''hi''), (''model'', ''Hello!''), (''user'', ''2 * 21?''),
            (''model'', ''The answer is 42''),
            (''system'', ''Connection error. Please try again.'')]"
    by (simp add: sample_history_def sample_calls_def chunk_text1_def chunk_call_def
          chunk_text2_def errorMessage_def Message_def TextPart_def FunctionCall_def
          role_of_def parts_of_def text_folded_def isText_def textOf_def)
  from raw_text_fidelity [OF sample_history_well_formed sample_calls_well_formed,
      of "\<lambda>s. s" "\<lambda>j. []" "\<lambda>e. []" "[]"]
  show ?thesis
    using sample_history_well_formed sample_calls_well_formed by (simp only: f simp_thms)
qed

section \<open>The history merge on the store\<close>

lemma prefix_nth:
  assumes "take n h = h0" and "a < length h0"
  shows "a < length h" and "h ! a = h0 ! a"
proof -
  from assms have "a < n" and "a < length h" by auto
  then show "a < length h" and "h ! a = h0 ! a"
    using assms(1) by (auto simp: nth_take [of a n h, symmetric])
qed

lemma message_at_prefix:
  "take n h = h0 \<Longrightarrow> a < length h0 \<Longrightarrow> message_at h a = message_at h0 a"
  using prefix_nth [of n h h0 a] by (simp add: message_at_def)

lemma array_at_prefix:
  "take n h = h0 \<Longrightarrow> a < length h0 \<Longrightarrow> array_at h a = array_at h0 a"
  using prefix_nth [of n h h0 a] by (simp add: array_at_def)

lemma message_at_bound: "message_at h a = Some x \<Longrightarrow> a < length h"
  by (simp add: message_at_def split: if_splits)

lemma array_at_bound: "array_at h a = Some x \<Longrightarrow> a < length h"
  by (simp add: array_at_def split: if_splits)

lemma message_at_append: "a < length h \<Longrightarrow> message_at (h @ new) a = message_at h a"
  by (simp add: message_at_def nth_append)

lemma array_at_append: "a < length h \<Longrightarrow> array_at (h @ new) a = array_at h a"
  by (simp add: array_at_def nth_append)

lemma message_at_update:
  assumes "array_at h p = Some xs"
  shows "message_at (h[p := PartsArray ys]) a = message_at h a"
proof (cases "a = p")
  case True
  with assms show ?thesis
    by (simp add: message_at_def array_at_def split: if_splits cell.splits)
next
  case False
  then show ?thesis by (simp add: message_at_def)
qed

lemma array_at_update:
  "array_at h p = Some xs \<Longrightarrow>
   array_at (h[p := PartsArray ys]) q = (if q = p then Some ys else array_at h q)"
  by (simp add: array_at_def split: if_splits)

lemma history_in_store_member:
  assumes "history_in_store h history" and "a \<in> set history"
  obtains r p xs where "message_at h a = Some (r, p)" and "array_at h p = Some xs"
proof -
  from assms have c: "case message_at h a of None \<Rightarrow> False | Some (r, p) \<Rightarrow> array_at h p \<noteq> None"
    by (simp add: history_in_store_def list_all_iff)
  then obtain r p where m: "message_at h a = Some (r, p)"
    by (cases "message_at h a") auto
  with c obtain xs where "array_at h p = Some xs" by auto
  with m that show thesis by blast
qed

lemma history_in_store_prefix:
  assumes "take n h = h0" and "history_in_store h0 history"
  shows "history_in_store h history"
  unfolding history_in_store_def list_all_iff
proof
  fix a assume "a \<in> set history"
  with assms(2) obtain r p xs where m: "message_at h0 a = Some (r, p)"
    and x: "array_at h0 p = Some xs"
    by (rule history_in_store_member)
  have "message_at h a = Some (r, p)"
    using message_at_prefix [OF assms(1) message_at_bound [OF m]] m by simp
  moreover have "array_at h p = Some xs"
    using array_at_prefix [OF assms(1) array_at_bound [OF x]] x by simp
  ultimately show "case message_at h a of None \<Rightarrow> False | Some (r, p) \<Rightarrow> array_at h p \<noteq> None"
    by simp
qed

lemma read_message_eq:
  "message_at h a = Some (r, p) \<Longrightarrow> array_at h p = Some xs \<Longrightarrow> read_message h a = Message r xs"
  by (simp add: read_message_def)

lemma role_of_Message [simp]: "role_of (Message r xs) = r"
  by (simp add: role_of_def Message_def)

lemma parts_of_Message [simp]: "parts_of (Message r xs) = xs"
  by (simp add: parts_of_def Message_def)

lemma with_parts_Message [simp]: "with_parts (Message r xs) ys = Message r ys"
  by (simp add: with_parts_def Message_def)

lemma own_copies_member:
  assumes "own_copies n h acc" and "a \<in> set acc"
  obtains r p xs where "message_at h a = Some (r, p)" and "array_at h p = Some xs"
    and "n \<le> a" and "n \<le> p" and "parts_address h a = p"
proof -
  from assms have m: "message_at h a \<noteq> None" and x: "array_at h (parts_address h a) \<noteq> None"
    and na: "n \<le> a" and np: "n \<le> parts_address h a"
    by (auto simp: own_copies_def)
  from m obtain r p where rp: "message_at h a = Some (r, p)" by (cases "message_at h a") auto
  then have pa: "parts_address h a = p" by (simp add: parts_address_def)
  with x obtain xs where "array_at h p = Some xs" by auto
  with rp na np pa that show thesis by auto
qed

lemma push_copy_step:
  assumes pre: "take n h = h0" and n: "n = length h0" and own: "own_copies n h acc"
    and m: "message_at h0 cur = Some (rc, pc)" and ys: "array_at h0 pc = Some ys"
  defines "h' \<equiv> h @ [PartsArray ys, MessageObject rc (length h)]"
  shows "deep_copy h cur = Some (h', Suc (length h))"
    and "take n h' = h0"
    and "own_copies n h' (acc @ [Suc (length h)])"
    and "map (read_message h') (acc @ [Suc (length h)]) =
         map (read_message h) acc @ [read_message h0 cur]"
proof -
  have nh: "n \<le> length h" using own by (simp add: own_copies_def)
  have mh: "message_at h cur = Some (rc, pc)"
    using message_at_prefix [OF pre message_at_bound [OF m]] m by simp
  have yh: "array_at h pc = Some ys"
    using array_at_prefix [OF pre array_at_bound [OF ys]] ys by simp
  show "deep_copy h cur = Some (h', Suc (length h))"
    by (simp add: deep_copy_def mh yh h'_def)
  show "take n h' = h0" using nh pre by (simp add: h'_def)
  have new_m: "message_at h' (Suc (length h)) = Some (rc, length h)"
    by (simp add: message_at_def h'_def nth_append)
  have new_a: "array_at h' (length h) = Some ys"
    by (simp add: array_at_def h'_def nth_append)
  have new_p: "parts_address h' (Suc (length h)) = length h"
    by (simp add: parts_address_def new_m)
  have old: "message_at h' a = message_at h a \<and> parts_address h' a = parts_address h a \<and>
             array_at h' (parts_address h a) = array_at h (parts_address h a) \<and>
             parts_address h a < length h \<and> read_message h' a = read_message h a"
    if "a \<in> set acc" for a
  proof -
    from own that obtain r p xs where rp: "message_at h a = Some (r, p)"
      and xs: "array_at h p = Some xs" and pa: "parts_address h a = p"
      by (rule own_copies_member)
    have 1: "message_at h' a = message_at h a"
      unfolding h'_def using message_at_bound [OF rp] by (rule message_at_append)
    have 2: "array_at h' p = array_at h p"
      unfolding h'_def using array_at_bound [OF xs] by (rule array_at_append)
    show ?thesis
      using 1 2 rp xs pa array_at_bound [OF xs]
      by (simp add: parts_address_def read_message_def)
  qed
  have map_old: "map (parts_address h') acc = map (parts_address h) acc"
    using old by simp
  have notin: "length h \<notin> set (map (parts_address h) acc)"
    using old by fastforce
  show "own_copies n h' (acc @ [Suc (length h)])"
    unfolding own_copies_def
  proof (intro conjI ballI)
    show "n \<le> length h'" using nh by (simp add: h'_def)
    show "distinct (map (parts_address h') (acc @ [Suc (length h)]))"
      using own notin by (simp add: map_old new_p own_copies_def)
  next
    fix a assume a: "a \<in> set (acc @ [Suc (length h)])"
    then consider "a \<in> set acc" | "a = Suc (length h)" by auto
    then have "n \<le> a \<and> message_at h' a \<noteq> None \<and> n \<le> parts_address h' a \<and>
          array_at h' (parts_address h' a) \<noteq> None"
    proof cases
      case 1
      with own have "n \<le> a" "message_at h a \<noteq> None" "n \<le> parts_address h a"
        "array_at h (parts_address h a) \<noteq> None"
        by (auto simp: own_copies_def)
      with old [OF 1] show ?thesis by simp
    next
      case 2
      with nh show ?thesis by (simp add: new_m new_p new_a)
    qed
    then show "n \<le> a" and "message_at h' a \<noteq> None" and "n \<le> parts_address h' a"
      and "array_at h' (parts_address h' a) \<noteq> None" by simp_all
  qed
  have "read_message h' (Suc (length h)) = Message rc ys"
    using new_m new_a by (rule read_message_eq)
  moreover have "read_message h0 cur = Message rc ys"
    using m ys by (rule read_message_eq)
  ultimately show "map (read_message h') (acc @ [Suc (length h)]) =
         map (read_message h) acc @ [read_message h0 cur]"
    using old by simp
qed

lemma push_parts_step:
  fixes ys :: "json list"
  assumes pre: "take n h = h0" and n: "n = length h0" and own: "own_copies n h acc"
    and ne: "acc \<noteq> []"
    and l: "message_at h (last acc) = Some (rl, pl)" and xs: "array_at h pl = Some xs"
  defines "h' \<equiv> h[pl := PartsArray (xs @ ys)]"
  shows "take n h' = h0"
    and "own_copies n h' acc"
    and "map (read_message h') acc = butlast (map (read_message h) acc) @ [Message rl (xs @ ys)]"
proof -
  have last_in: "last acc \<in> set acc" using ne by simp
  have pa_last: "parts_address h (last acc) = pl" using l by (simp add: parts_address_def)
  have npl: "n \<le> pl" using own last_in pa_last by (auto simp: own_copies_def)
  show "take n h' = h0" using npl pre by (simp add: h'_def)
  have m_same: "message_at h' a = message_at h a" for a
    unfolding h'_def using xs by (rule message_at_update)
  have p_same: "parts_address h' a = parts_address h a" for a
    by (simp add: parts_address_def m_same)
  have a_new: "array_at h' q = (if q = pl then Some (xs @ ys) else array_at h q)" for q
    unfolding h'_def using xs by (rule array_at_update)
  have len: "length h' = length h" by (simp add: h'_def)
  have p_fun: "parts_address h' = parts_address h" by (rule ext) (rule p_same)
  show "own_copies n h' acc"
    using own by (auto simp: own_copies_def m_same p_fun a_new len)
  have dist: "distinct (map (parts_address h) acc)" using own by (simp add: own_copies_def)
  have split: "acc = butlast acc @ [last acc]" using ne by simp
  have "parts_address h a \<noteq> pl" if "a \<in> set (butlast acc)" for a
  proof
    assume "parts_address h a = pl"
    with pa_last have "parts_address h a = parts_address h (last acc)" by simp
    moreover have "distinct (map (parts_address h) (butlast acc) @ [parts_address h (last acc)])"
      using dist split by (metis list.simps(8,9) map_append)
    ultimately show False using that by (metis distinct_append distinct.simps(2) image_eqI
        list.set_map distinct1_rotate rotate1.simps(2) disjoint_iff list.set_intros(1))
  qed
  then have apart: "parts_address h a \<noteq> pl" if "a \<in> set (butlast acc)" for a
    using that by blast
  have others: "read_message h' a = read_message h a" if "a \<in> set (butlast acc)" for a
  proof (cases "message_at h a")
    case None
    then show ?thesis by (simp add: read_message_def m_same)
  next
    case (Some rp)
    obtain r p where rp: "rp = (r, p)" by (cases rp)
    with Some apart [OF that] have "p \<noteq> pl" by (simp add: parts_address_def)
    with Some rp show ?thesis by (simp add: read_message_def m_same a_new)
  qed
  have lastm: "read_message h' (last acc) = Message rl (xs @ ys)"
    by (rule read_message_eq [of _ _ rl pl]) (simp_all add: m_same l a_new)
  have "map (read_message h') acc =
        map (read_message h') (butlast acc) @ [read_message h' (last acc)]"
    using split by (metis list.simps(8,9) map_append)
  also have "\<dots> = map (read_message h) (butlast acc) @ [Message rl (xs @ ys)]"
    using others lastm by simp
  finally show "map (read_message h') acc =
      butlast (map (read_message h) acc) @ [Message rl (xs @ ys)]"
    by (simp add: map_butlast)
qed

lemma merge_reducer_store_step:
  assumes pre: "take n h = h0" and n: "n = length h0" and own: "own_copies n h acc"
    and m: "message_at h0 cur = Some (rc, pc)" and ys: "array_at h0 pc = Some ys"
  shows "\<exists>h' acc'. merge_reducer_store (h, acc) cur = Some (h', acc') \<and>
           take n h' = h0 \<and> own_copies n h' acc' \<and>
           map (read_message h') acc' =
             merge_step (map (read_message h) acc) (read_message h0 cur)"
proof -
  have mh: "message_at h cur = Some (rc, pc)"
    using message_at_prefix [OF pre message_at_bound [OF m]] m by simp
  have yh: "array_at h pc = Some ys"
    using array_at_prefix [OF pre array_at_bound [OF ys]] ys by simp
  have cur: "read_message h0 cur = Message rc ys" using m ys by (rule read_message_eq)
  note copy = push_copy_step [OF pre n own m ys]
  show ?thesis
  proof (cases "acc = []")
    case True
    have "merge_reducer_store (h, acc) cur =
            Some (h @ [PartsArray ys, MessageObject rc (length h)], acc @ [Suc (length h)])"
      using True by (simp add: merge_reducer_store_def mh copy(1))
    moreover have "map (read_message (h @ [PartsArray ys, MessageObject rc (length h)]))
                     (acc @ [Suc (length h)]) =
                   merge_step (map (read_message h) acc) (read_message h0 cur)"
      using True copy(4) by (simp add: merge_step_def)
    ultimately show ?thesis using copy(2,3) by blast
  next
    case False
    then have "last acc \<in> set acc" by simp
    with own obtain rl pl xs where l: "message_at h (last acc) = Some (rl, pl)"
      and xs: "array_at h pl = Some xs"
      by (rule own_copies_member)
    have lastm: "read_message h (last acc) = Message rl xs" using l xs by (rule read_message_eq)
    have last_read: "last (map (read_message h) acc) = Message rl xs"
      using False lastm by (simp add: last_map)
    show ?thesis
    proof (cases "rl = rc \<and> rc \<noteq> ''user''")
      case True
      note push = push_parts_step [OF pre n own False l xs, where ys = ys]
      have "merge_reducer_store (h, acc) cur = Some (h[pl := PartsArray (xs @ ys)], acc)"
        using False True by (simp add: merge_reducer_store_def mh l xs yh)
      moreover have "map (read_message (h[pl := PartsArray (xs @ ys)])) acc =
                     merge_step (map (read_message h) acc) (read_message h0 cur)"
        using False True push(3) by (simp add: merge_step_def last_read cur)
      ultimately show ?thesis using push(1,2) by blast
    next
      case nomerge: False
      have "merge_reducer_store (h, acc) cur =
            Some (h @ [PartsArray ys, MessageObject rc (length h)], acc @ [Suc (length h)])"
        using False nomerge by (auto simp: merge_reducer_store_def mh l copy(1))
      moreover have "map (read_message (h @ [PartsArray ys, MessageObject rc (length h)]))
                     (acc @ [Suc (length h)]) =
                   merge_step (map (read_message h) acc) (read_message h0 cur)"
        using False nomerge copy(4) by (auto simp: merge_step_def last_read cur)
      ultimately show ?thesis using copy(2,3) by blast
    qed
  qed
qed

lemma mergedHistory_store_fold:
  assumes pre: "take n h = h0" and n: "n = length h0" and own: "own_copies n h acc"
    and hist: "history_in_store h0 history"
  shows "\<exists>h' acc'. mergedHistory_store (h, acc) history = Some (h', acc') \<and>
           take n h' = h0 \<and>
           map (read_message h') acc' =
             foldl merge_step (map (read_message h) acc) (map (read_message h0) history)"
  using pre own hist
proof (induction history arbitrary: h acc)
  case Nil
  then show ?case by simp
next
  case (Cons cur history)
  from Cons.prems(3) have rest: "history_in_store h0 history"
    by (simp add: history_in_store_def)
  from Cons.prems(3) obtain rc pc ys where m: "message_at h0 cur = Some (rc, pc)"
    and ys: "array_at h0 pc = Some ys"
    by (rule history_in_store_member [of h0 "cur # history" cur]) simp_all
  from merge_reducer_store_step [OF Cons.prems(1) n Cons.prems(2) m ys]
  obtain h1 acc1 where step: "merge_reducer_store (h, acc) cur = Some (h1, acc1)"
    and pre1: "take n h1 = h0" and own1: "own_copies n h1 acc1"
    and abs1: "map (read_message h1) acc1 =
                 merge_step (map (read_message h) acc) (read_message h0 cur)"
    by blast
  from Cons.IH [OF pre1 own1 rest] show ?case
    by (simp add: step abs1)
qed

lemma history_in_store_shaped:
  assumes "history_in_store h history"
  shows "list_all message_shaped (map (read_message h) history)"
  unfolding list_all_iff
proof
  fix m assume "m \<in> set (map (read_message h) history)"
  then obtain a where a: "a \<in> set history" and m: "m = read_message h a" by auto
  from assms a obtain r p xs where "message_at h a = Some (r, p)" and "array_at h p = Some xs"
    by (rule history_in_store_member)
  then have "read_message h a = Message r xs" by (rule read_message_eq)
  with m show "message_shaped m" by (simp add: message_shaped_Message)
qed

lemma sample_store_history: "history_in_store sample_store [1, 3, 5]"
  by (simp add: history_in_store_def sample_store_def message_at_def array_at_def)

lemma sample_store_merge:
  "mergedHistory_store (sample_store, []) [1, 3, 5] =
     Some (sample_store @
             [PartsArray [TextPart ''hi''], MessageObject ''user'' 6,
              PartsArray [TextPart ''Hel'', TextPart ''lo!''], MessageObject ''model'' 8],
           [7, 9])"
  by (simp add: sample_store_def merge_reducer_store_def deep_copy_def message_at_def
        array_at_def)

text \<open>
  C7 (the history merge does not write into its input).  Run the fold on a store that holds
  the history: it returns, and every cell the store had before is as it was, so every
  message object and every parts array of the caller is unchanged and each message of the
  history reads as before, although the fold has extended the parts arrays of entries it
  produced; and the messages it returns are those \<open>mergedHistory\<close> computes from the
  values of the history.
\<close>

theorem history_merge_leaves_input_unchanged:
  assumes "history_in_store h history"
  shows "\<exists>h' merged.
           mergedHistory_store (h, []) history = Some (h', merged) \<and>
           take (length h) h' = h \<and>
           map (read_message h') history = map (read_message h) history \<and>
           mergedHistory (JArr (map (read_message h) history)) =
             Inr (map (read_message h') merged)"
proof -
  have pure: "mergedHistory (JArr (map (read_message h) history)) =
                Inr (foldl merge_step [] (map (read_message h) history))"
    using reduce_shaped [OF history_in_store_shaped [OF assms], of "[]"]
    by (simp add: mergedHistory_def)
  have own: "own_copies (length h) h []" by (simp add: own_copies_def)
  have "take (length h) h = h" by simp
  from mergedHistory_store_fold [OF this refl own assms]
  obtain h' merged where r: "mergedHistory_store (h, []) history = Some (h', merged)"
    and pre: "take (length h) h' = h"
    and ab: "map (read_message h') merged = foldl merge_step [] (map (read_message h) history)"
    by auto
  have "read_message h' a = read_message h a" if "a \<in> set history" for a
  proof -
    from assms that obtain r p xs where m: "message_at h a = Some (r, p)"
      and x: "array_at h p = Some xs"
      by (rule history_in_store_member)
    have "message_at h' a = Some (r, p)"
      using message_at_prefix [OF pre message_at_bound [OF m]] m by simp
    moreover have "array_at h' p = Some xs"
      using array_at_prefix [OF pre array_at_bound [OF x]] x by simp
    ultimately show ?thesis using m x by (simp add: read_message_def)
  qed
  then have "map (read_message h') history = map (read_message h) history" by simp
  with r pre ab pure show ?thesis by auto
qed

theorem history_merge_leaves_input_unchanged_witness:
  "history_in_store sample_store [1, 3, 5] \<and>
   mergedHistory_store (sample_store, []) [1, 3, 5] =
     Some (sample_store @
             [PartsArray [TextPart ''hi''], MessageObject ''user'' 6,
              PartsArray [TextPart ''Hel'', TextPart ''lo!''], MessageObject ''model'' 8],
           [7, 9]) \<and>
   (\<exists>h' merged.
      mergedHistory_store (sample_store, []) [1, 3, 5] = Some (h', merged) \<and>
      take (length sample_store) h' = sample_store \<and>
      map (read_message h') [1, 3, 5] = map (read_message sample_store) [1, 3, 5] \<and>
      mergedHistory (JArr (map (read_message sample_store) [1, 3, 5])) =
        Inr (map (read_message h') merged))"
  using history_merge_leaves_input_unchanged [OF sample_store_history]
    sample_store_history sample_store_merge
  by blast

section \<open>What renderPart escapes\<close>

text \<open>
  The three replacements of \<open>htmlEncode\<close>, made one after the other, escape each character
  once: the result holds no angle bracket.  \<open>renderPart\<close> gives the empty string for a
  null or absent Part, and passes every serialised payload through \<open>htmlEncode\<close>.
\<close>

lemma replace_all_Nil [simp]: "replace_all c r [] = []"
  by (simp add: replace_all_def)

lemma replace_all_Cons [simp]:
  "replace_all c r (x # xs) = (if x = c then r else [x]) @ replace_all c r xs"
  by (simp add: replace_all_def)

lemma replace_all_append [simp]:
  "replace_all c r (xs @ ys) = replace_all c r xs @ replace_all c r ys"
  by (simp add: replace_all_def)

lemma htmlEncode_charwise: "htmlEncode (Some s) = Inr (concat (map escape_char s))"
proof -
  have "replace_all CHR ''>'' ''&gt;''
          (replace_all CHR ''<'' ''&lt;'' (replace_all CHR ''&'' ''&amp;'' s)) =
        concat (map escape_char s)"
    by (induction s) (simp_all add: escape_char_def)
  then show ?thesis by (simp add: htmlEncode_def)
qed

lemma htmlEncode_no_angle_brackets:
  assumes "htmlEncode (Some s) = Inr t"
  shows "CHR ''<'' \<notin> set t" and "CHR ''>'' \<notin> set t"
proof -
  from assms have t: "t = concat (map escape_char s)" by (simp add: htmlEncode_charwise)
  have "CHR ''<'' \<notin> set (escape_char c) \<and> CHR ''>'' \<notin> set (escape_char c)" for c
    by (simp add: escape_char_def)
  then show "CHR ''<'' \<notin> set t" and "CHR ''>'' \<notin> set t"
    unfolding t by auto
qed

lemma renderPart_null_or_absent:
  "renderPart marked stringify None = Inr []"
  "renderPart marked stringify (Some JNull) = Inr []"
  by (simp_all add: renderPart_def)

lemma renderPart_function_call:
  assumes "truthy (Some p)" and "js_get p ''type'' = Some (JStr ''function_call'')"
    and "js_get p ''args'' = Some a"
  shows "renderPart marked stringify (Some p) =
           Inr (accordion ''Function Call: '' (js_String (js_get p ''name''))
                  (concat (map escape_char (stringify a))))"
  using assms htmlEncode_charwise [of "stringify a"]
  by (simp add: renderPart_def JSON_stringify_def)

lemma renderPart_function_response:
  assumes "truthy (Some p)" and "js_get p ''type'' = Some (JStr ''function_response'')"
    and "js_get p ''response'' = Some a"
  shows "renderPart marked stringify (Some p) =
           Inr (accordion ''Function Response: '' (js_String (js_get p ''name''))
                  (concat (map escape_char (stringify a))))"
  using assms htmlEncode_charwise [of "stringify a"]
  by (simp add: renderPart_def JSON_stringify_def)

lemma renderPart_unknown:
  assumes "truthy (Some p)" and "js_get p ''type'' \<noteq> Some (JStr ''text'')"
    and "js_get p ''type'' \<noteq> Some (JStr ''function_call'')"
    and "js_get p ''type'' \<noteq> Some (JStr ''function_response'')"
  shows "renderPart marked stringify (Some p) =
           Inr (''<pre><code>'' @ concat (map escape_char (stringify p)) @ ''</code></pre>'')"
  using assms htmlEncode_charwise [of "stringify p"]
  by (simp add: renderPart_def JSON_stringify_def)

section \<open>What the extend branch does to Parts that are not text\<close>

lemma chunks_well_formed:
  "well_formed_message chunk_text1" "well_formed_message chunk_call"
  "well_formed_message chunk_text2" "well_formed_message chunk_response"
  "well_formed_message whole_turn"
  by (simp_all add: chunk_text1_def chunk_call_def chunk_text2_def chunk_response_def
        whole_turn_def shapes)

lemma chunk_roles [simp]:
  "role_of chunk_text1 = ''model''" "role_of chunk_call = ''model''"
  "role_of chunk_text2 = ''model''" "role_of chunk_response = ''model''"
  "role_of whole_turn = ''model''"
  by (simp_all add: chunk_text1_def chunk_call_def chunk_text2_def chunk_response_def
        whole_turn_def)

lemma chunk_parts [simp]:
  "parts_of chunk_text1 = [TextPart ''The answer is '']"
  "parts_of chunk_call = [FunctionCall ''calc'' (JObj [(''x'', JNum 1)])]"
  "parts_of chunk_text2 = [TextPart ''42'']"
  "parts_of chunk_response = [FunctionResponse ''calc'' (JNum 42)]"
  "parts_of whole_turn =
     [TextPart ''The answer is '', FunctionCall ''calc'' (JObj [(''x'', JNum 1)]),
      TextPart ''42'']"
  by (simp_all add: chunk_text1_def chunk_call_def chunk_text2_def chunk_response_def
        whole_turn_def)

lemma part_types [simp]:
  "js_get (TextPart t) ''type'' = Some (JStr ''text'')"
  "js_get (FunctionCall n a) ''type'' = Some (JStr ''function_call'')"
  "js_get (FunctionResponse n r) ''type'' = Some (JStr ''function_response'')"
  "js_get placeholder ''type'' = Some (JStr ''non-text-placeholder'')"
  by (simp_all add: TextPart_def FunctionCall_def FunctionResponse_def placeholder_def)

lemma part_accordions [simp]:
  "renders_accordion (FunctionCall n a)" "renders_accordion (FunctionResponse n r)"
  "\<not> renders_accordion placeholder"
  by (simp_all add: renders_accordion_def FunctionCall_def FunctionResponse_def placeholder_def)

lemma text_folded_simps [simp]:
  "text_folded [] = []"
  "text_folded (TextPart t # ps) = t @ text_folded ps"
  "text_folded (FunctionCall n a # ps) = text_folded ps"
  "text_folded (FunctionResponse n r # ps) = text_folded ps"
  by (simp_all add: text_folded_def isText_def textOf_def TextPart_def FunctionCall_def
        FunctionResponse_def)

lemma rendered_eq [simp]:
  "rendered marked stringify s xs = rendered marked stringify t ys \<longleftrightarrow> s = t \<and> xs = ys"
  by (auto simp: rendered_def)

lemma feed_whole_turn:
  "feed marked stringify [whole_turn] [] =
     ([\<lparr>role = ''model'',
        content = rendered marked stringify ''The answer is 42''
                    [FunctionCall ''calc'' (JObj [(''x'', JNum 1)])]\<rparr>], [])"
  using addOrUpdateMessage_new [OF chunks_well_formed(5), of "[]" marked stringify]
    appendMessage_well_formed [OF chunks_well_formed(5), of marked stringify "[]"]
  by simp

text \<open>
  C3 (the streaming scenario).  Onto the empty chat log the three chunks of the scenario
  give one model entry whose raw text is \<^verbatim>\<open>The answer is 42\<close>; but the Part shown
  beside the text is the placeholder the extend branch puts in place of every accordion it
  finds, not the function call with name calc and arguments x = 1 that the second chunk
  brought.
\<close>

theorem streaming_scenario_loses_function_call:
  "feed marked stringify [chunk_text1, chunk_call, chunk_text2] [] =
     ([\<lparr>role = ''model'',
        content = rendered marked stringify ''The answer is 42'' [placeholder]\<rparr>], []) \<and>
   rawText (rendered marked stringify ''The answer is 42'' [placeholder]) = ''The answer is 42'' \<and>
   otherParts (rendered marked stringify ''The answer is 42'' [placeholder]) = [placeholder] \<and>
   innerHTML (rendered marked stringify ''The answer is 42'' [placeholder]) =
     marked ''The answer is 42'' @
     ''<pre><code>'' @ concat (map escape_char (stringify placeholder)) @ ''</code></pre>'' \<and>
   placeholder \<noteq> FunctionCall ''calc'' (JObj [(''x'', JNum 1)])"
proof -
  have shown: "renderPart marked stringify (Some placeholder) =
      Inr (''<pre><code>'' @ concat (map escape_char (stringify placeholder)) @ ''</code></pre>'')"
    by (rule renderPart_unknown) (simp_all add: placeholder_def)
  let ?e1 = "\<lparr>role = ''model'', content = rendered marked stringify ''The answer is '' []\<rparr>"
  let ?e2 = "\<lparr>role = ''model'',
              content = rendered marked stringify ''The answer is ''
                          [FunctionCall ''calc'' (JObj [(''x'', JNum 1)])]\<rparr>"
  let ?e3 = "\<lparr>role = ''model'',
              content = rendered marked stringify ''The answer is 42'' [placeholder]\<rparr>"
  have 1: "addOrUpdateMessage marked stringify chunk_text1 [] = ([?e1], None)"
    using addOrUpdateMessage_new [OF chunks_well_formed(1), of "[]" marked stringify]
      appendMessage_well_formed [OF chunks_well_formed(1), of marked stringify "[]"]
    by simp
  have 2: "addOrUpdateMessage marked stringify chunk_call [?e1] = ([?e2], None)"
    using addOrUpdateMessage_extend [OF chunks_well_formed(2), of "[?e1]" marked stringify]
    by simp
  have 3: "addOrUpdateMessage marked stringify chunk_text2 [?e2] = ([?e3], None)"
    using addOrUpdateMessage_extend [OF chunks_well_formed(3), of "[?e2]" marked stringify]
    by simp
  show ?thesis
    by (simp add: 1 2 3) (simp add: rendered_def shown, simp add: placeholder_def FunctionCall_def)
qed

text \<open>
  C1 (merge equivalence).  The Message of the scenario fed as one chunk shows its function
  call; the same Parts fed as three chunks, whose lists concatenate to that of the Message,
  show a placeholder instead.  The raw text is the same both ways.
\<close>

theorem chunked_feed_differs_from_single_feed:
  "otherParts (content (last (fst (feed marked stringify [whole_turn] [])))) =
     [FunctionCall ''calc'' (JObj [(''x'', JNum 1)])] \<and>
   otherParts (content (last (fst (feed marked stringify
       [chunk_text1, chunk_call, chunk_text2] [])))) = [placeholder] \<and>
   rawText (content (last (fst (feed marked stringify [whole_turn] [])))) =
     rawText (content (last (fst (feed marked stringify
       [chunk_text1, chunk_call, chunk_text2] [])))) \<and>
   parts_of whole_turn = parts_of chunk_text1 @ parts_of chunk_call @ parts_of chunk_text2 \<and>
   [placeholder] \<noteq> [FunctionCall ''calc'' (JObj [(''x'', JNum 1)])]"
proof -
  let ?e1 = "\<lparr>role = ''model'', content = rendered marked stringify ''The answer is '' []\<rparr>"
  let ?e2 = "\<lparr>role = ''model'',
              content = rendered marked stringify ''The answer is ''
                          [FunctionCall ''calc'' (JObj [(''x'', JNum 1)])]\<rparr>"
  let ?e3 = "\<lparr>role = ''model'',
              content = rendered marked stringify ''The answer is 42'' [placeholder]\<rparr>"
  have 1: "addOrUpdateMessage marked stringify chunk_text1 [] = ([?e1], None)"
    using addOrUpdateMessage_new [OF chunks_well_formed(1), of "[]" marked stringify]
      appendMessage_well_formed [OF chunks_well_formed(1), of marked stringify "[]"]
    by simp
  have 2: "addOrUpdateMessage marked stringify chunk_call [?e1] = ([?e2], None)"
    using addOrUpdateMessage_extend [OF chunks_well_formed(2), of "[?e1]" marked stringify]
    by simp
  have 3: "addOrUpdateMessage marked stringify chunk_text2 [?e2] = ([?e3], None)"
    using addOrUpdateMessage_extend [OF chunks_well_formed(3), of "[?e2]" marked stringify]
    by simp
  have chunked: "feed marked stringify [chunk_text1, chunk_call, chunk_text2] [] = ([?e3], [])"
    by (simp add: 1 2 3)
  show ?thesis
    by (simp add: chunked feed_whole_turn del: feed.simps)
       (simp add: placeholder_def FunctionCall_def)
qed

text \<open>
  The raw text, for its part, does not depend on the chunking: for a role other than user
  and any split of well-formed Parts into chunks, the chunks fed one by one and the Parts
  fed as one Message leave the same entries before the last, and a last entry of the same
  role and raw text.
\<close>

lemma Message_well_formed:
  "valid_token r \<Longrightarrow> list_all well_formed_part ps \<Longrightarrow> well_formed_message (Message r ps)"
  by (simp add: well_formed_message_def Message_def is_string_def is_array_def role_of_def
        parts_of_def)

lemma feed_extends:
  assumes "valid_token r" and "r \<noteq> ''user''" and "list_all (list_all well_formed_part) pss"
    and "log \<noteq> []" and "role (last log) = r"
  shows "\<exists>e. feed marked stringify (map (Message r) pss) log = (butlast log @ [e], []) \<and>
             role e = r \<and>
             rawText (content e) = rawText (content (last log)) @ text_folded (concat pss)"
  using assms(3-5)
proof (induction pss arbitrary: log)
  case Nil
  then have "log = butlast log @ [last log]" by simp
  with Nil show ?case by (intro exI [of _ "last log"]) simp
next
  case (Cons ps pss)
  then have ps: "list_all well_formed_part ps" and rest: "list_all (list_all well_formed_part) pss"
    by simp_all
  have wfm: "well_formed_message (Message r ps)"
    using assms(1) ps by (rule Message_well_formed)
  let ?c = "rendered marked stringify (rawText (content (last log)) @ text_folded ps)
              (map (\<lambda>_. placeholder) (filter renders_accordion (otherParts (content (last log)))) @
               filter (\<lambda>p. js_get p ''type'' \<noteq> Some (JStr ''text'')) ps)"
  let ?e = "(last log)\<lparr>content := ?c\<rparr>"
  have step: "addOrUpdateMessage marked stringify (Message r ps) log = (butlast log @ [?e], None)"
    using addOrUpdateMessage_extend [OF wfm Cons.prems(2), of marked stringify]
      Cons.prems(3) assms(2) by simp
  have "butlast log @ [?e] \<noteq> []" and "role (last (butlast log @ [?e])) = r"
    using Cons.prems(3) by simp_all
  from Cons.IH [OF rest this] obtain e where
    e: "feed marked stringify (map (Message r) pss) (butlast log @ [?e]) = (butlast log @ [e], [])"
    and re: "role e = r"
    and te: "rawText (content e) = rawText (content ?e) @ text_folded (concat pss)"
    by auto
  have "feed marked stringify (map (Message r) (ps # pss)) log = (butlast log @ [e], [])"
    by (simp add: step e)
  moreover have "rawText (content e) =
      rawText (content (last log)) @ text_folded (concat (ps # pss))"
    using te by (simp add: text_folded_append)
  ultimately show ?case using re by blast
qed

lemma rawText_independent_of_chunking:
  assumes tok: "valid_token r" and nu: "r \<noteq> ''user''"
    and wf: "list_all (list_all well_formed_part) pss" and ne: "pss \<noteq> []"
    and that: "xs = (if log \<noteq> [] \<and> role (last log) = r then butlast log else log)"
  shows "\<exists>e e'. feed marked stringify (map (Message r) pss) log = (xs @ [e], []) \<and>
                feed marked stringify [Message r (concat pss)] log = (xs @ [e'], []) \<and>
                role e = role e' \<and> rawText (content e) = rawText (content e')"
proof (cases "log \<noteq> [] \<and> role (last log) = r")
  case True
  then have l: "log \<noteq> []" and rl: "role (last log) = r" by simp_all
  have whole: "list_all (list_all well_formed_part) [concat pss]"
    using wf by (induction pss) simp_all
  from feed_extends [OF tok nu wf l rl, of marked stringify]
    feed_extends [OF tok nu whole l rl, of marked stringify]
  show ?thesis using True that by auto
next
  case False
  from ne obtain ps rest where pss: "pss = ps # rest" by (cases pss) auto
  with wf have ps: "list_all well_formed_part ps"
    and rest: "list_all (list_all well_formed_part) rest" by simp_all
  have all: "list_all well_formed_part (concat pss)"
    using wf by (induction pss) simp_all
  have new: "log = [] \<or> role (last log) \<noteq> r \<or> r = ''user''" using False by auto
  have first: "addOrUpdateMessage marked stringify (Message r ps) log =
                 (log @ [bubble marked stringify (Message r ps)], None)"
    using addOrUpdateMessage_new [OF Message_well_formed [OF tok ps], of log marked stringify]
      appendMessage_well_formed [OF Message_well_formed [OF tok ps], of marked stringify log]
      new
    by (simp add: bubble_def)
  have single: "addOrUpdateMessage marked stringify (Message r (concat pss)) log =
                 (log @ [bubble marked stringify (Message r (concat pss))], None)"
    using addOrUpdateMessage_new [OF Message_well_formed [OF tok all], of log marked stringify]
      appendMessage_well_formed [OF Message_well_formed [OF tok all], of marked stringify log]
      new
    by (simp add: bubble_def)
  from feed_extends [OF tok nu rest, of "log @ [bubble marked stringify (Message r ps)]"
      marked stringify]
  obtain e where e: "feed marked stringify (map (Message r) rest)
                       (log @ [bubble marked stringify (Message r ps)]) = (log @ [e], [])"
    and re: "role e = r"
    and te: "rawText (content e) = text_folded ps @ text_folded (concat rest)"
    by (auto simp: bubble_def)
  have "feed marked stringify (map (Message r) pss) log = (log @ [e], [])"
    by (simp add: pss first e)
  moreover have "feed marked stringify [Message r (concat pss)] log =
                   (log @ [bubble marked stringify (Message r (concat pss))], [])"
    by (simp add: single)
  moreover have "role e = role (bubble marked stringify (Message r (concat pss)))"
    using re by (simp add: bubble_def)
  moreover have "rawText (content e) =
                 rawText (content (bubble marked stringify (Message r (concat pss))))"
    using te by (simp add: bubble_def pss text_folded_append)
  ultimately show ?thesis using False that by auto
qed

text \<open>
  C2 (growth of the non-text Parts).  A function call arrives and is shown; a function
  response arrives in the next chunk, and the call has become a placeholder; a text chunk
  arrives, and of the two only one placeholder is left: an earlier Part is replaced by
  another value, and then dropped.
\<close>

theorem extend_replaces_then_drops_non_text_parts:
  "otherParts (content (last (fst (feed marked stringify [chunk_call] [])))) =
     [FunctionCall ''calc'' (JObj [(''x'', JNum 1)])] \<and>
   otherParts (content (last (fst (feed marked stringify [chunk_call, chunk_response] [])))) =
     [placeholder, FunctionResponse ''calc'' (JNum 42)] \<and>
   otherParts (content (last (fst (feed marked stringify
       [chunk_call, chunk_response, chunk_text2] [])))) = [placeholder] \<and>
   placeholder \<noteq> FunctionCall ''calc'' (JObj [(''x'', JNum 1)]) \<and>
   placeholder \<noteq> FunctionResponse ''calc'' (JNum 42)"
proof -
  let ?e1 = "\<lparr>role = ''model'',
              content = rendered marked stringify []
                          [FunctionCall ''calc'' (JObj [(''x'', JNum 1)])]\<rparr>"
  let ?e2 = "\<lparr>role = ''model'',
              content = rendered marked stringify []
                          [placeholder, FunctionResponse ''calc'' (JNum 42)]\<rparr>"
  let ?e3 = "\<lparr>role = ''model'', content = rendered marked stringify ''42'' [placeholder]\<rparr>"
  have 1: "addOrUpdateMessage marked stringify chunk_call [] = ([?e1], None)"
    using addOrUpdateMessage_new [OF chunks_well_formed(2), of "[]" marked stringify]
      appendMessage_well_formed [OF chunks_well_formed(2), of marked stringify "[]"]
    by simp
  have 2: "addOrUpdateMessage marked stringify chunk_response [?e1] = ([?e2], None)"
    using addOrUpdateMessage_extend [OF chunks_well_formed(4), of "[?e1]" marked stringify]
    by simp
  have 3: "addOrUpdateMessage marked stringify chunk_text2 [?e2] = ([?e3], None)"
    using addOrUpdateMessage_extend [OF chunks_well_formed(3), of "[?e2]" marked stringify]
    by simp
  show ?thesis
    by (simp add: 1 2 3) (simp add: placeholder_def FunctionCall_def FunctionResponse_def)
qed

section \<open>Escaping\<close>

text \<open>
  C4 (escaping in renderPart).  For a function call named \<^verbatim>\<open><b>\<close> with the string
  \<^verbatim>\<open><b>\<close> as arguments, serialised by \<^verbatim>\<open>JSON.stringify\<close> as that string in double
  quotes, the payload comes out escaped and the name comes out as markup, unescaped, in
  the summary line.
\<close>

theorem renderPart_leaves_name_unescaped:
  \<open>renderPart marked (\<lambda>j. ''"<b>"'') (Some (FunctionCall ''<b>'' (JStr ''<b>''))) =
     Inr (newline_indent 20 @ ''<details class="accordion">'' @
          newline_indent 24 @ ''<summary>Function Call: <b></summary>'' @
          newline_indent 24 @ ''<pre><code>"&lt;b&gt;"</code></pre>'' @
          newline_indent 20 @ ''</details>'' @
          newline_indent 16)\<close>
  by (simp add: renderPart_def FunctionCall_def htmlEncode_def JSON_stringify_def
        replace_all_def accordion_def js_String_def)

end
